theory Spec2Isabelle
  imports Complex_Main "HOL-Library.Word"
begin

section \<open>JavaScript strings and arrays\<close>

text \<open>
  A JavaScript string is a sequence of UTF-16 code units, and \<^verbatim>\<open>length\<close> counts code
  units. \<open>js\<close> turns an ASCII literal into such a sequence.
\<close>

type_synonym jschar = "16 word"
type_synonym jsstring = "jschar list"

definition js :: "string \<Rightarrow> jsstring" where
  "js s = map of_char s"

text \<open>
  The character class \<^verbatim>\<open>\s\<close> of a regular expression, which is also the set that
  \<^verbatim>\<open>String.prototype.trim\<close> strips: WhiteSpace and LineTerminator of ECMAScript.
\<close>

definition isWs :: "jschar \<Rightarrow> bool" where
  "isWs c \<longleftrightarrow>
     c = 0x9 \<or> c = 0xA \<or> c = 0xB \<or> c = 0xC \<or> c = 0xD \<or> c = 0x20 \<or> c = 0xA0 \<or>
     c = 0x1680 \<or> (0x2000 \<le> c \<and> c \<le> 0x200A) \<or> c = 0x2028 \<or> c = 0x2029 \<or>
     c = 0x202F \<or> c = 0x205F \<or> c = 0x3000 \<or> c = 0xFEFF"

text \<open>\<^verbatim>\<open>s.trim()\<close>\<close>

definition trim :: "jsstring \<Rightarrow> jsstring" where
  "trim s = rev (dropWhile isWs (rev (dropWhile isWs s)))"

text \<open>\<^verbatim>\<open>s.replace(/\s+/g, " ")\<close>: every maximal run of whitespace becomes one space.\<close>

function replace_ws :: "jsstring \<Rightarrow> jsstring" where
  "replace_ws [] = []"
| "replace_ws (c # cs) =
     (if isWs c then 0x20 # replace_ws (dropWhile isWs cs) else c # replace_ws cs)"
  by pat_completeness auto
termination
  by (relation "measure length") (auto simp: length_dropWhile_le less_Suc_eq_le)

text \<open>
  \<^verbatim>\<open>s.split(/\s+/)\<close>: the pieces of \<open>s\<close> between the maximal runs of whitespace. The
  piece before a leading run and the piece after a trailing run are the empty string,
  and the empty string splits into one empty piece.
\<close>

function split_ws :: "jsstring \<Rightarrow> jsstring list" where
  "split_ws s =
     (case dropWhile (\<lambda>c. \<not> isWs c) s of
        [] \<Rightarrow> [s]
      | r # rs \<Rightarrow> takeWhile (\<lambda>c. \<not> isWs c) s # split_ws (dropWhile isWs rs))"
  by pat_completeness auto
termination
proof (relation "measure length")
  show "wf (measure length)" by simp
next
  fix s :: jsstring and r rs
  assume d: "dropWhile (\<lambda>c. \<not> isWs c) s = r # rs"
  have "length (dropWhile isWs rs) \<le> length rs" by (rule length_dropWhile_le)
  moreover have "length (r # rs) \<le> length s"
    using length_dropWhile_le [of "\<lambda>c. \<not> isWs c" s] d by simp
  ultimately show "(dropWhile isWs rs, s) \<in> measure length" by simp
qed

declare split_ws.simps [simp del]

text \<open>\<^verbatim>\<open>xs.join(sep)\<close>\<close>

fun join :: "jsstring \<Rightarrow> jsstring list \<Rightarrow> jsstring" where
  "join sep [] = []"
| "join sep [x] = x"
| "join sep (x # y # ys) = x @ sep @ join sep (y # ys)"

text \<open>
  \<^verbatim>\<open>xs.slice(start, end)\<close> on integers: a negative index counts from the end, both
  indices are clamped to the array, and an empty range gives the empty array.
\<close>

definition slice :: "'a list \<Rightarrow> int \<Rightarrow> int \<Rightarrow> 'a list" where
  "slice xs start end =
     (let len = int (length xs);
          k = (if start < 0 then max (len + start) 0 else min start len);
          final = (if end < 0 then max (len + end) 0 else min end len)
      in take (nat (final - k)) (drop (nat k) xs))"

section \<open>The text chunker\<close>

text \<open>
  The errors the program throws itself, \<^verbatim>\<open>Error("Invalid input text")\<close> and
  \<^verbatim>\<open>Error("Scraped content is too short or empty.")\<close>, and an error thrown by an
  external service (the browser, the embedding model, the vector store, the
  generative model), with its message.
\<close>

datatype error =
    InvalidInputText
  | ScrapedContentTooShort
  | ServiceError string

text \<open>
  The loop of \<^verbatim>\<open>chunkText\<close>:
  \<^verbatim>\<open>for (let i = 0; i < words.length; i += chunkSize)
    chunks.push(words.slice(i, i + chunkSize).join(" "));\<close>
  Nothing in the loop bounds the number of iterations, so a run that never leaves the
  loop is the value \<open>None\<close>.
\<close>

partial_function (option) chunk_loop ::
  "jsstring list \<Rightarrow> int \<Rightarrow> int \<Rightarrow> jsstring list \<Rightarrow> jsstring list option" where
  "chunk_loop words chunkSize i chunks =
     (if i < int (length words)
      then chunk_loop words chunkSize (i + chunkSize)
             (chunks @ [join (js '' '') (slice words i (i + chunkSize))])
      else Some chunks)"

declare chunk_loop.simps [code]

text \<open>
  \<^verbatim>\<open>chunkText(text, chunkSize = 500)\<close> of \<^verbatim>\<open>src/index.js\<close>: no check of its
  arguments. The text is a string and the chunk size an integer, of any sign; the one
  call in the program passes the default, 500.
\<close>

definition chunkText :: "jsstring \<Rightarrow> int \<Rightarrow> jsstring list option" where
  "chunkText text chunkSize = chunk_loop (split_ws text) chunkSize 0 []"

text \<open>
  \<^verbatim>\<open>chunkText\<close> of the two other variants of the program (\<^verbatim>\<open>src/unnamed/part_000\<close>
  and \<^verbatim>\<open>part_001\<close>), which starts with
  \<^verbatim>\<open>if (!text || chunkSize <= 0) throw new Error("Invalid input text");\<close>
\<close>

definition chunkText_guarded :: "jsstring \<Rightarrow> int \<Rightarrow> (error + jsstring list) option" where
  "chunkText_guarded text chunkSize =
     (if text = [] \<or> chunkSize \<le> 0 then Some (Inl InvalidInputText)
      else map_option Inr (chunk_loop (split_ws text) chunkSize 0 []))"

text \<open>
  The vocabulary of the specification: the words of a text are its maximal runs of
  characters that are not whitespace, and a text is normalized the way the scraper does
  it, \<^verbatim>\<open>body.replace(/\s+/g, " ").trim()\<close>.
\<close>

definition wordCount :: "jsstring \<Rightarrow> nat" where
  "wordCount text = length (filter (\<lambda>w. w \<noteq> []) (split_ws text))"

definition normalize_ws :: "jsstring \<Rightarrow> jsstring" where
  "normalize_ws text = trim (replace_ws text)"

text \<open>Consecutive windows of \<open>n\<close> elements, the last one possibly shorter.\<close>

function windows :: "nat \<Rightarrow> 'a list \<Rightarrow> 'a list list" where
  "windows n xs = (if n = 0 \<or> xs = [] then [] else take n xs # windows n (drop n xs))"
  by pat_completeness auto
termination
  by (relation "measure (\<lambda>(n, xs). length xs)") auto

declare windows.simps [simp del]

section \<open>The pipeline of \<^verbatim>\<open>src/index.js\<close>\<close>

text \<open>
  The repository holds three variants of one program. \<^verbatim>\<open>src/index.js\<close> is the one
  modelled here; \<^verbatim>\<open>src/unnamed/part_000\<close> has the same \<^verbatim>\<open>insertIntoDB\<close>,
  \<^verbatim>\<open>ingest\<close> and \<^verbatim>\<open>chat\<close> (with chunks of 1000 words and another wording of
  the prompt), a scraper without the check of the length, and the guarded chunker;
  \<^verbatim>\<open>src/unnamed/part_001\<close> is an earlier state of it (the URL as the id of every
  chunk, no \<^verbatim>\<open>try\<close> in \<^verbatim>\<open>ingest\<close>, no check of an empty result in \<^verbatim>\<open>chat\<close>).
\<close>

subsection \<open>Values and the external services\<close>

text \<open>
  An embedding is an array of numbers, which the program only tests for emptiness and
  hands on. \<open>None\<close> is a value that is \<^verbatim>\<open>undefined\<close>.
\<close>

type_synonym vector = "real list"

text \<open>The object \<^verbatim>\<open>{ url, head, body }\<close> stored with an embedding.\<close>

record metadata =
  meta_url :: jsstring
  meta_head :: jsstring
  meta_body :: jsstring

type_synonym collection = "jsstring \<rightharpoonup> vector \<times> metadata"

text \<open>
  Every request to an external service is recorded, in order, so that a claim can count
  the calls made on a path.
\<close>

datatype call =
    Fetch jsstring
  | Embed jsstring
  | GetCollection
  | Add jsstring vector metadata
  | Query "vector option" nat
  | Generate jsstring

record world =
  store :: collection
  calls :: "call list"

text \<open>
  The external services, each a function of its request that resolves to a value or
  rejects with an error:
  \<^item> \<open>puppeteer_page\<close>: the browser session of \<^verbatim>\<open>scrapeWebPage\<close>, which yields
    \<^verbatim>\<open>document.body.innerText\<close> (after the removal of the noisy tags) and
    \<^verbatim>\<open>document.title\<close>;
  \<^item> \<open>embedContent\<close>: \<^verbatim>\<open>(await embeddingModel.embedContent(..)).embedding.values\<close>;
  \<^item> \<open>collection_error\<close>: \<^verbatim>\<open>chromaClient.getOrCreateCollection\<close>, which rejects or
    resolves to the one collection;
  \<^item> \<open>collection_add\<close>: \<^verbatim>\<open>collection.add({ ids: [id], embeddings: [embedding],
    metadatas: [metadata] })\<close>, which rejects or resolves with the collection changed
    as the store sees fit;
  \<^item> \<open>collection_query\<close>: \<^verbatim>\<open>(await collection.query(..))?.metadatas?.[0]\<close>;
  \<^item> \<open>generateContent\<close>: \<^verbatim>\<open>(await model.generateContent(prompt)).response.text()\<close>.
\<close>

record services =
  puppeteer_page :: "jsstring \<Rightarrow> error + jsstring \<times> jsstring"
  embedContent :: "jsstring \<Rightarrow> error + vector option"
  collection_error :: "error option"
  collection_add :: "collection \<Rightarrow> jsstring \<Rightarrow> vector \<Rightarrow> metadata \<Rightarrow> error + collection"
  collection_query :: "collection \<Rightarrow> vector option \<Rightarrow> nat \<Rightarrow> error + metadata list option"
  generateContent :: "jsstring \<Rightarrow> error + jsstring"

definition log_call :: "call \<Rightarrow> world \<Rightarrow> world" where
  "log_call c w = w\<lparr>calls := calls w @ [c]\<rparr>"

subsection \<open>Scraper, embedding, insertion\<close>

text \<open>
  \<^verbatim>\<open>scrapeWebPage\<close>: an error of the browser is logged and thrown again; a body that
  is falsy or whose trimmed length is below 50 throws; otherwise the result is
  \<^verbatim>\<open>{ head, body: body.replace(/\s+/g, " ").trim() }\<close>.
\<close>

definition scrapeWebPage ::
  "services \<Rightarrow> jsstring \<Rightarrow> world \<Rightarrow> (error + jsstring \<times> jsstring) \<times> world" where
  "scrapeWebPage sv url w =
     (let w1 = log_call (Fetch url) w in
      case puppeteer_page sv url of
        Inl e \<Rightarrow> (Inl e, w1)
      | Inr (body, head) \<Rightarrow>
          if body = [] \<or> length (trim body) < 50 then (Inl ScrapedContentTooShort, w1)
          else (Inr (head, normalize_ws body), w1))"

text \<open>\<^verbatim>\<open>generateVectorEmbeddings\<close>: an error of the embedding call is caught and \<^verbatim>\<open>[]\<close> returned.\<close>

definition generateVectorEmbeddings ::
  "services \<Rightarrow> jsstring \<Rightarrow> world \<Rightarrow> vector option \<times> world" where
  "generateVectorEmbeddings sv text w =
     (let w1 = log_call (Embed text) w in
      case embedContent sv text of
        Inl e \<Rightarrow> (Some [], w1)
      | Inr values \<Rightarrow> (values, w1))"

text \<open>
  \<^verbatim>\<open>insertIntoDB(id, embedding, url, body, head)\<close>:
  \<^verbatim>\<open>if (!embedding || embedding.length === 0) return;\<close> and then the collection is
  fetched and the record added.
\<close>

definition insertIntoDB ::
  "services \<Rightarrow> jsstring \<Rightarrow> vector option \<Rightarrow> jsstring \<Rightarrow> jsstring \<Rightarrow> jsstring \<Rightarrow> world
   \<Rightarrow> (error + unit) \<times> world" where
  "insertIntoDB sv id' embedding url body head w =
     (case embedding of
        None \<Rightarrow> (Inr (), w)
      | Some v \<Rightarrow>
          if length v = 0 then (Inr (), w)
          else
            (let w1 = log_call GetCollection w in
             case collection_error sv of
               Some e \<Rightarrow> (Inl e, w1)
             | None \<Rightarrow>
                 (let md = \<lparr>meta_url = url, meta_head = head, meta_body = body\<rparr>;
                      w2 = log_call (Add id' v md) w1 in
                  case collection_add sv (store w2) id' v md of
                    Inl e \<Rightarrow> (Inl e, w2)
                  | Inr c \<Rightarrow> (Inr (), w2\<lparr>store := c\<rparr>))))"

subsection \<open>Ingestion\<close>

text \<open>The decimal digits of a loop index, as a template literal prints it.\<close>

fun toString_nat :: "nat \<Rightarrow> jsstring" where
  "toString_nat n =
     (if n < 10 then [0x30 + of_nat n]
      else toString_nat (n div 10) @ [0x30 + of_nat (n mod 10)])"

declare toString_nat.simps [simp del]

text \<open>\<^verbatim>\<open>`${url}-chunk-${i}`\<close>\<close>

definition chunkId :: "jsstring \<Rightarrow> nat \<Rightarrow> jsstring" where
  "chunkId url i = url @ js ''-chunk-'' @ toString_nat i"

text \<open>One iteration of the loop of \<^verbatim>\<open>ingest\<close>, for the chunk at index \<open>i\<close>.\<close>

definition ingest_chunk ::
  "services \<Rightarrow> jsstring \<Rightarrow> jsstring \<Rightarrow> jsstring \<Rightarrow> nat \<Rightarrow> world \<Rightarrow> (error + unit) \<times> world" where
  "ingest_chunk sv url head chunk i w =
     (let (bodyEmbedding, w1) = generateVectorEmbeddings sv chunk w
      in insertIntoDB sv (chunkId url i) bodyEmbedding url chunk head w1)"

text \<open>
  \<^verbatim>\<open>for (let i = 0; i < bodyChunks.length; i++)\<close>, from index \<open>i\<close> over the chunks that
  remain; an error thrown in an iteration leaves the loop.
\<close>

fun ingest_loop ::
  "services \<Rightarrow> jsstring \<Rightarrow> jsstring \<Rightarrow> jsstring list \<Rightarrow> nat \<Rightarrow> world \<Rightarrow> (error + unit) \<times> world" where
  "ingest_loop sv url head [] i w = (Inr (), w)"
| "ingest_loop sv url head (chunk # rest) i w =
     (case ingest_chunk sv url head chunk i w of
        (Inl e, w1) \<Rightarrow> (Inl e, w1)
      | (Inr u, w1) \<Rightarrow> ingest_loop sv url head rest (Suc i) w1)"

text \<open>
  What \<^verbatim>\<open>ingest\<close> reports on the console: \<^verbatim>\<open>Ingested: url\<close> at the end of the
  \<^verbatim>\<open>try\<close> block, \<^verbatim>\<open>Failed to ingest url\<close> in the \<^verbatim>\<open>catch\<close> block. The function
  itself never throws.
\<close>

datatype report = Ingested | FailedToIngest

definition ingest :: "services \<Rightarrow> jsstring \<Rightarrow> world \<Rightarrow> (report \<times> world) option" where
  "ingest sv url w =
     (case scrapeWebPage sv url w of
        (Inl e, w1) \<Rightarrow> Some (FailedToIngest, w1)
      | (Inr (head, body), w1) \<Rightarrow>
          (case chunkText body 500 of
             None \<Rightarrow> None
           | Some bodyChunks \<Rightarrow>
               (case ingest_loop sv url head bodyChunks 0 w1 of
                  (Inl e, w2) \<Rightarrow> Some (FailedToIngest, w2)
                | (Inr u, w2) \<Rightarrow> Some (Ingested, w2))))"

subsection \<open>Answering a question\<close>

text \<open>\<^verbatim>\<open>Boolean(s)\<close> for a string: only the empty string is falsy.\<close>

definition Boolean_string :: "jsstring \<Rightarrow> bool" where
  "Boolean_string s \<longleftrightarrow> length s \<noteq> 0"

text \<open>\<^verbatim>\<open>metadatas.map((e) => e.body).filter(Boolean)\<close>\<close>

definition bodies :: "metadata list \<Rightarrow> jsstring list" where
  "bodies metadatas = filter Boolean_string (map meta_body metadatas)"

text \<open>
  The same extraction in \<^verbatim>\<open>src/unnamed/part_001\<close>:
  \<^verbatim>\<open>results.metadatas[0].map((e) => e.body).filter((e) => e.trim() !== '' && !!e)\<close>
\<close>

definition bodies_part_001 :: "metadata list \<Rightarrow> jsstring list" where
  "bodies_part_001 metadatas =
     filter (\<lambda>e. trim e \<noteq> [] \<and> Boolean_string e) (map meta_body metadatas)"

text \<open>
  \<^verbatim>\<open>[...new Set(xs)]\<close>: a Set keeps its elements in insertion order, and adding an
  element that is present changes nothing.
\<close>

definition Set_add :: "'a list \<Rightarrow> 'a \<Rightarrow> 'a list" where
  "Set_add s x = (if x \<in> set s then s else s @ [x])"

definition new_Set :: "'a list \<Rightarrow> 'a list" where
  "new_Set xs = foldl Set_add [] xs"

text \<open>\<^verbatim>\<open>[...new Set(metadatas.map((e) => e.url))]\<close>\<close>

definition urls :: "metadata list \<Rightarrow> jsstring list" where
  "urls metadatas = new_Set (map meta_url metadatas)"

text \<open>The template literal of the prompt.\<close>

definition prompt :: "jsstring \<Rightarrow> jsstring list \<Rightarrow> jsstring list \<Rightarrow> jsstring" where
  "prompt question us bs =
     js ''\<newline>You are an AI agent.\<newline>Based on the context, answer the user.\<newline>\<newline>Query: ''
     @ question @ js ''\<newline>URL(s): '' @ join (js '', '') us
     @ js ''\<newline>Context:\<newline>---\<newline>'' @ join (js ''\<newline>---\<newline>'') bs
     @ js ''\<newline>---\<newline>Answer:''"

text \<open>
  What \<^verbatim>\<open>chat\<close> prints before it returns: that no relevant context was found, or
  the text of the model's response.
\<close>

datatype outcome = NoRelevantContext | Answered jsstring

definition chat :: "services \<Rightarrow> jsstring \<Rightarrow> world \<Rightarrow> (error + outcome) \<times> world" where
  "chat sv question w =
     (let (questionEmbedding, w1) = generateVectorEmbeddings sv question w;
          w2 = log_call GetCollection w1
      in case collection_error sv of
           Some e \<Rightarrow> (Inl e, w2)
         | None \<Rightarrow>
             (let w3 = log_call (Query questionEmbedding 3) w2 in
              case collection_query sv (store w3) questionEmbedding 3 of
                Inl e \<Rightarrow> (Inl e, w3)
              | Inr results \<Rightarrow>
                  (let metadatas = (case results of None \<Rightarrow> [] | Some ms \<Rightarrow> ms) in
                   if length metadatas = 0 then (Inr NoRelevantContext, w3)
                   else
                     (let p = prompt question (urls metadatas) (bodies metadatas);
                          w4 = log_call (Generate p) w3 in
                      case generateContent sv p of
                        Inl e \<Rightarrow> (Inl e, w4)
                      | Inr t \<Rightarrow> (Inr (Answered t), w4)))))"

text \<open>The number of calls of the generative model in a record of calls.\<close>

definition generate_calls :: "call list \<Rightarrow> nat" where
  "generate_calls cs = length (filter (\<lambda>c. case c of Generate p \<Rightarrow> True | _ \<Rightarrow> False) cs)"

definition query_calls :: "call list \<Rightarrow> nat" where
  "query_calls cs = length (filter (\<lambda>c. case c of Query v k \<Rightarrow> True | _ \<Rightarrow> False) cs)"

section \<open>Contracts of the vector store, invariants, example services\<close>

text \<open>
  Modelled from the spec: what the spec asks of the vector store's write, which is an
  external service and has no code in the repository. A write that resolves leaves the
  collection with exactly the record written under its id, all other ids untouched
  (\<open>writes_by_id\<close>); the store of the spec moreover never rejects a write, so that a
  write to an id that is present overwrites it (\<open>overwrites_by_id\<close>).
\<close>

definition writes_by_id :: "services \<Rightarrow> bool" where
  "writes_by_id sv \<longleftrightarrow>
     (\<forall>c k v m c'. collection_add sv c k v m = Inr c' \<longrightarrow> c' = c(k \<mapsto> (v, m)))"


text \<open>No record of the collection has an empty embedding.\<close>

definition no_empty_embedding :: "collection \<Rightarrow> bool" where
  "no_empty_embedding c \<longleftrightarrow> (\<forall>k v m. c k = Some (v, m) \<longrightarrow> v \<noteq> [])"

text \<open>No write recorded in a list of calls carries an empty embedding.\<close>

definition adds_nonempty :: "call list \<Rightarrow> bool" where
  "adds_nonempty cs \<longleftrightarrow> (\<forall>k v m. Add k v m \<in> set cs \<longrightarrow> v \<noteq> [])"


text \<open>
  Services to run the program on: a page of more than 50 characters, an embedding
  model that answers a vector of one number, a store that keeps what it is given and
  finds nothing, and a model that answers.
\<close>

definition page_text :: jsstring where
  "page_text = js ''The quick brown fox jumps over the lazy dog and runs far away.''"

definition test_services :: services where
  "test_services =
     \<lparr>puppeteer_page = (\<lambda>u. Inr (page_text, js ''Title'')),
      embedContent = (\<lambda>t. Inr (Some [1])),
      collection_error = None,
      collection_add = (\<lambda>c k v m. Inr (c(k \<mapsto> (v, m)))),
      collection_query = (\<lambda>c v k. Inr (Some [])),
      generateContent = (\<lambda>p. Inr (js ''answer''))\<rparr>"

definition empty_world :: world where
  "empty_world = \<lparr>store = Map.empty, calls = []\<rparr>"

text \<open>The same services with one of them failing, or with a store that finds records.\<close>

definition embedding_down :: "services \<Rightarrow> services" where
  "embedding_down sv = sv\<lparr>embedContent := \<lambda>t. Inl (ServiceError ''embedding service down'')\<rparr>"

definition store_rejects :: "services \<Rightarrow> services" where
  "store_rejects sv = sv\<lparr>collection_add := \<lambda>c k v m. Inl (ServiceError ''write rejected'')\<rparr>"

definition store_finds :: "metadata list \<Rightarrow> services \<Rightarrow> services" where
  "store_finds ms sv = sv\<lparr>collection_query := \<lambda>c v k. Inr (Some ms)\<rparr>"

text \<open>
  The specification's deduplication of a ranked list: each element once, at the place
  of its first occurrence.
\<close>

fun first_seen :: "'a list \<Rightarrow> 'a list" where
  "first_seen [] = []"
| "first_seen (x # xs) = x # first_seen (filter (\<lambda>y. y \<noteq> x) xs)"

definition store_unreachable :: "services \<Rightarrow> services" where
  "store_unreachable sv = sv\<lparr>collection_error := Some (ServiceError ''store unreachable'')\<rparr>"

text \<open>
  The store rejects a call made by the iteration of \<open>ingest\<close> for the chunk at index
  \<open>i\<close>, started in the world \<open>w\<close>: the chunk has a non-empty embedding, so that
  \<open>insertIntoDB\<close> calls the store, and the lookup of the collection or the write of the
  record into the store of \<open>w\<close> is rejected.
\<close>

definition call_rejected ::
  "services \<Rightarrow> jsstring \<Rightarrow> jsstring \<Rightarrow> jsstring \<Rightarrow> nat \<Rightarrow> world \<Rightarrow> bool" where
  "call_rejected sv url head chunk i w \<longleftrightarrow>
     (\<exists>v. fst (generateVectorEmbeddings sv chunk w) = Some v \<and> v \<noteq> [] \<and>
        (collection_error sv \<noteq> None \<or>
         (\<exists>e. collection_add sv (store w) (chunkId url i) v
                 \<lparr>meta_url = url, meta_head = head, meta_body = chunk\<rparr> = Inl e)))"

text \<open>
  The store rejects a call in the run of the loop of \<open>ingest\<close> over \<open>chunks\<close> from the
  world \<open>w\<close>: the iterations before index \<open>i\<close> have run without an error, and the store
  rejects a call of the iteration at \<open>i\<close>, in the world those iterations have left.
\<close>

definition rejected_in_run ::
  "services \<Rightarrow> jsstring \<Rightarrow> jsstring \<Rightarrow> jsstring list \<Rightarrow> world \<Rightarrow> nat \<Rightarrow> bool" where
  "rejected_in_run sv url head chunks w i \<longleftrightarrow>
     i < length chunks \<and>
     fst (ingest_loop sv url head (take i chunks) 0 w) = Inr () \<and>
     call_rejected sv url head (chunks ! i) i
       (snd (ingest_loop sv url head (take i chunks) 0 w))"

text \<open>The texts whose embedding has been requested, in the order of the requests.\<close>

definition embed_calls :: "call list \<Rightarrow> jsstring list" where
  "embed_calls cs = concat (map (\<lambda>c. case c of Embed t \<Rightarrow> [t] | _ \<Rightarrow> []) cs)"

section \<open>Properties of the chunker\<close>

subsection \<open>The loop\<close>

lemma slice_window:
  assumes "0 \<le> i" "i < int (length xs)" "0 < n"
  shows "slice xs i (i + n) = take (nat n) (drop (nat i) xs)"
proof -
  have "take (nat (min (i + n) (int (length xs)) - i)) (drop (nat i) xs)
        = take (nat n) (drop (nat i) xs)"
  proof (cases "i + n \<le> int (length xs)")
    case True
    then show ?thesis by (simp add: min_def)
  next
    case False
    then have "length (drop (nat i) xs) \<le> nat n"
      using assms by auto
    then show ?thesis using False assms by (simp add: min_def)
  qed
  then show ?thesis using assms by (simp add: slice_def Let_def min_def)
qed

lemma chunk_loop_closed:
  assumes "0 < n" "0 \<le> i"
  shows "chunk_loop ws n i acc
         = Some (acc @ map (join (js '' '')) (windows (nat n) (drop (nat i) ws)))"
  using assms(2)
proof (induction "length ws - nat i" arbitrary: i acc rule: less_induct)
  case less
  show ?case
  proof (cases "i < int (length ws)")
    case False
    then have "drop (nat i) ws = []" using less.prems by simp
    then show ?thesis using False
      by (subst chunk_loop.simps) (simp add: windows.simps)
  next
    case True
    have lt: "length ws - nat (i + n) < length ws - nat i"
      using True less.prems assms(1) by linarith
    have nn: "0 \<le> i + n" using less.prems assms(1) by simp
    have d: "drop (nat i) ws \<noteq> []" using True less.prems by simp
    have dd: "drop (nat n) (drop (nat i) ws) = drop (nat (i + n)) ws"
      using less.prems assms(1) by (simp add: nat_add_distrib add.commute)
    have w: "windows (nat n) (drop (nat i) ws)
             = take (nat n) (drop (nat i) ws) # windows (nat n) (drop (nat (i + n)) ws)"
    proof -
      have "windows (nat n) (drop (nat i) ws)
            = take (nat n) (drop (nat i) ws) # windows (nat n) (drop (nat n) (drop (nat i) ws))"
        using d assms(1) by (subst windows.simps) (simp del: drop_drop)
      then show ?thesis by (simp only: dd)
    qed
    show ?thesis
      using True less.hyps [OF lt nn] slice_window [OF less.prems True assms(1)] w
      by (subst chunk_loop.simps) simp
  qed
qed

lemma chunk_loop_stuck:
  assumes "chunk_loop ws n i acc = Some y"
  shows "n \<le> 0 \<longrightarrow> \<not> i < int (length ws)"
proof (rule chunk_loop.raw_induct
    [where P = "\<lambda>ws n i acc y. n \<le> 0 \<longrightarrow> \<not> i < int (length ws)", OF _ assms])
  fix f :: "jsstring list \<Rightarrow> int \<Rightarrow> int \<Rightarrow> jsstring list \<Rightarrow> jsstring list option"
    and ws n i acc y
  assume IH: "\<And>ws n i acc y. f ws n i acc = Some y \<Longrightarrow> n \<le> 0 \<longrightarrow> \<not> i < int (length ws)"
    and eq: "(if i < int (length ws)
              then f ws n (i + n) (acc @ [join (js '' '') (slice ws i (i + n))])
              else Some acc) = Some y"
  show "n \<le> 0 \<longrightarrow> \<not> i < int (length ws)"
  proof (intro impI notI)
    assume n: "n \<le> 0" and lt: "i < int (length ws)"
    from eq lt have "f ws n (i + n) (acc @ [join (js '' '') (slice ws i (i + n))]) = Some y"
      by simp
    from IH [OF this] n lt show False by simp
  qed
qed
lemma js_space: "js '' '' = [0x20]"
  by (simp add: js_def)

lemma isWs_space: "isWs 0x20"
  by (simp add: isWs_def)

subsection \<open>windows\<close>

lemma windows_Nil: "windows n [] = []"
  by (simp add: windows.simps)

lemma windows_step: "0 < n \<Longrightarrow> xs \<noteq> [] \<Longrightarrow> windows n xs = take n xs # windows n (drop n xs)"
  by (subst windows.simps) simp

lemma concat_windows: "0 < n \<Longrightarrow> concat (windows n xs) = xs"
proof (induction n xs rule: windows.induct)
  case (1 n xs)
  then show ?case by (cases "xs = []") (simp_all add: windows_Nil windows_step)
qed

lemma length_windows: "0 < n \<Longrightarrow> length (windows n xs) = (length xs + n - 1) div n"
proof (induction n xs rule: windows.induct)
  case (1 n xs)
  show ?case
  proof (cases "xs = []")
    case True
    then show ?thesis using 1(2) by (simp add: windows_Nil)
  next
    case False
    then have IH: "length (windows n (drop n xs)) = (length (drop n xs) + n - 1) div n"
      using 1 by simp
    show ?thesis
    proof (cases "length xs \<le> n")
      case True
      then have "(length xs + n - 1) div n = 1"
        using False 1(2) by (intro div_nat_eqI) (cases xs; simp)+
      then show ?thesis using True False 1(2) by (simp add: windows_step windows_Nil)
    next
      case gt: False
      then have "length xs + n - 1 = (length xs - n + n - 1) + n" using 1(2) by simp
      then have "(length xs + n - 1) div n = Suc ((length xs - n + n - 1) div n)"
        using 1(2) by (metis div_add_self2 less_numeral_extra(3) Suc_eq_plus1)
      then show ?thesis using IH False 1(2) by (simp add: windows_step)
    qed
  qed
qed

lemma windows_member:
  "0 < n \<Longrightarrow> w \<in> set (windows n xs) \<Longrightarrow> w \<noteq> [] \<and> length w \<le> n \<and> set w \<subseteq> set xs"
proof (induction n xs rule: windows.induct)
  case (1 n xs)
  show ?case
  proof (cases "xs = []")
    case True
    then show ?thesis using 1(3) by (simp add: windows_Nil)
  next
    case False
    then have "w = take n xs \<or> w \<in> set (windows n (drop n xs))"
      using 1(2,3) by (simp add: windows_step)
    then show ?thesis
    proof
      assume "w = take n xs"
      then show ?thesis using False 1(2) by (auto dest: in_set_takeD)
    next
      assume "w \<in> set (windows n (drop n xs))"
      then have "w \<noteq> [] \<and> length w \<le> n \<and> set w \<subseteq> set (drop n xs)"
        using 1 False by simp
      then show ?thesis by (auto dest: in_set_dropD)
    qed
  qed
qed

subsection \<open>join\<close>

lemma join_Cons_Cons: "join sep ((c # w) # ws) = c # join sep (w # ws)"
  by (cases ws) simp_all

lemma join_append:
  "xs \<noteq> [] \<Longrightarrow> ys \<noteq> [] \<Longrightarrow> join sep (xs @ ys) = join sep xs @ sep @ join sep ys"
proof (induction sep xs rule: join.induct)
  case (2 sep x)
  then show ?case by (cases ys) simp_all
qed simp_all

lemma join_concat:
  "\<forall>g \<in> set gs. g \<noteq> [] \<Longrightarrow> join sep (map (join sep) gs) = join sep (concat gs)"
proof (induction gs)
  case Nil
  then show ?case by simp
next
  case (Cons g gs)
  show ?case
  proof (cases gs)
    case Nil
    then show ?thesis by simp
  next
    case (Cons h hs)
    then have "concat gs \<noteq> []" using Cons.prems by auto
    then show ?thesis using Cons.prems Cons.IH Cons by (simp add: join_append)
  qed
qed

subsection \<open>split\<close>

lemma split_ws_Nil: "split_ws [] = [[]]"
  by (simp add: split_ws.simps)

lemma split_ws_ws: "isWs c \<Longrightarrow> split_ws (c # cs) = [] # split_ws (dropWhile isWs cs)"
  by (subst split_ws.simps) simp

lemma split_ws_not_Nil: "split_ws s \<noteq> []"
  by (subst split_ws.simps) (simp split: list.split)

lemma split_ws_char:
  "\<not> isWs c \<Longrightarrow> split_ws (c # cs) = (c # hd (split_ws cs)) # tl (split_ws cs)"
proof -
  assume c: "\<not> isWs c"
  have a: "dropWhile (\<lambda>c. \<not> isWs c) (c # cs) = dropWhile (\<lambda>c. \<not> isWs c) cs"
    "takeWhile (\<lambda>c. \<not> isWs c) (c # cs) = c # takeWhile (\<lambda>c. \<not> isWs c) cs"
    using c by simp_all
  show ?thesis
  proof (cases "dropWhile (\<lambda>c. \<not> isWs c) cs")
    case Nil
    have "split_ws cs = [cs]"
      by (subst split_ws.simps) (simp only: Nil list.case)
    moreover have "split_ws (c # cs) = [c # cs]"
      by (subst split_ws.simps) (simp only: a Nil list.case)
    ultimately show ?thesis by simp
  next
    case (Cons r rs)
    have "split_ws cs = takeWhile (\<lambda>c. \<not> isWs c) cs # split_ws (dropWhile isWs rs)"
      by (subst split_ws.simps) (simp only: Cons list.case)
    moreover have "split_ws (c # cs)
        = (c # takeWhile (\<lambda>c. \<not> isWs c) cs) # split_ws (dropWhile isWs rs)"
      by (subst split_ws.simps) (simp only: a Cons list.case)
    ultimately show ?thesis by simp
  qed
qed

lemma join_split_ws: "join [0x20] (split_ws s) = replace_ws s"
proof (induction s rule: replace_ws.induct)
  case 1
  then show ?case by (simp add: split_ws_Nil)
next
  case (2 c cs)
  show ?case
  proof (cases "isWs c")
    case True
    obtain w ws where "split_ws (dropWhile isWs cs) = w # ws"
      using split_ws_not_Nil by (cases "split_ws (dropWhile isWs cs)") auto
    then show ?thesis using True 2(1) by (simp add: split_ws_ws)
  next
    case False
    obtain w ws where "split_ws cs = w # ws"
      using split_ws_not_Nil by (cases "split_ws cs") auto
    then show ?thesis using False 2(2) by (simp add: split_ws_char join_Cons_Cons)
  qed
qed

lemma split_ws_no_ws: "\<forall>w \<in> set (split_ws s). \<forall>c \<in> set w. \<not> isWs c"
proof (induction s rule: replace_ws.induct)
  case 1
  then show ?case by (simp add: split_ws_Nil)
next
  case (2 d ds)
  show ?case
  proof (cases "isWs d")
    case True
    then show ?thesis using 2(1) by (simp add: split_ws_ws)
  next
    case False
    obtain v vs where s: "split_ws ds = v # vs"
      using split_ws_not_Nil by (cases "split_ws ds") auto
    have "\<forall>w \<in> set (v # vs). \<forall>c \<in> set w. \<not> isWs c"
      using 2(2) [OF False] s by simp
    then show ?thesis using False s by (simp add: split_ws_char)
  qed
qed

lemma hd_split_ws: "hd (split_ws s) = takeWhile (\<lambda>c. \<not> isWs c) s"
proof (cases "dropWhile (\<lambda>c. \<not> isWs c) s")
  case Nil
  have "split_ws s = [s]"
    by (subst split_ws.simps) (simp only: Nil list.case)
  moreover have "takeWhile (\<lambda>c. \<not> isWs c) s = s"
    using takeWhile_dropWhile_id [of "\<lambda>c. \<not> isWs c" s] by (simp only: Nil append_Nil2)
  ultimately show ?thesis by (simp only: list.sel)
next
  case (Cons r rs)
  have "split_ws s = takeWhile (\<lambda>c. \<not> isWs c) s # split_ws (dropWhile isWs rs)"
    by (subst split_ws.simps) (simp only: Cons list.case)
  then show ?thesis by simp
qed

lemma last_dropWhile:
  "xs \<noteq> [] \<Longrightarrow> \<not> P (last xs) \<Longrightarrow> dropWhile P xs \<noteq> [] \<and> last (dropWhile P xs) = last xs"
  by (induction xs) (auto split: if_splits)

lemma tl_split_ws_nonempty:
  "s \<noteq> [] \<Longrightarrow> \<not> isWs (last s) \<Longrightarrow> [] \<notin> set (tl (split_ws s))"
proof (induction s rule: replace_ws.induct)
  case 1
  then show ?case by simp
next
  case (2 c cs)
  show ?case
  proof (cases "isWs c")
    case True
    then have cs: "cs \<noteq> []" "\<not> isWs (last cs)" using 2(4) by (auto split: if_splits)
    let ?r = "dropWhile isWs cs"
    have r: "?r \<noteq> []" "last ?r = last cs" using last_dropWhile [where P = isWs, OF cs] by auto
    then have "\<not> isWs (hd ?r)" using hd_dropWhile [of isWs cs] by simp
    then have "hd (split_ws ?r) \<noteq> []" using r(1) by (cases ?r) (auto simp: hd_split_ws)
    moreover have "[] \<notin> set (tl (split_ws ?r))" using 2(1) [OF True r(1)] r(2) cs(2) by simp
    ultimately have "[] \<notin> set (split_ws ?r)"
      using split_ws_not_Nil [of ?r] by (cases "split_ws ?r") auto
    then show ?thesis using True by (simp add: split_ws_ws)
  next
    case False
    show ?thesis
    proof (cases "cs = []")
      case True
      then show ?thesis using False by (simp add: split_ws_char split_ws_Nil)
    next
      case ne: False
      then show ?thesis using False 2(2) [OF False ne] 2(4) by (simp add: split_ws_char)
    qed
  qed
qed

lemma dropWhile_same_length:
  assumes "length (dropWhile P xs) = length xs"
  shows "dropWhile P xs = xs"
proof -
  have "length (takeWhile P xs @ dropWhile P xs) = length xs"
    by (simp only: takeWhile_dropWhile_id)
  then have "length (takeWhile P xs) + length (dropWhile P xs) = length xs"
    by (simp only: length_append)
  with assms have "takeWhile P xs = []" by simp
  then show ?thesis using takeWhile_dropWhile_id [of P xs] by simp
qed

lemma trim_fixed:
  assumes "s \<noteq> []" "\<not> isWs (hd s)" "\<not> isWs (last s)"
  shows "trim s = s"
proof -
  have keep: "dropWhile isWs xs = xs" if "xs \<noteq> []" "\<not> isWs (hd xs)" for xs
    using that by (cases xs) auto
  have "rev s \<noteq> []" "\<not> isWs (hd (rev s))" using assms(1,3) by (simp_all add: hd_rev)
  then have "dropWhile isWs (rev s) = rev s" by (rule keep)
  then show ?thesis using keep [OF assms(1,2)] by (simp add: trim_def)
qed

lemma trim_eq_self:
  assumes "s \<noteq> []" "trim s = s"
  shows "\<not> isWs (hd s) \<and> \<not> isWs (last s)"
proof -
  let ?d = "dropWhile isWs s"
  have len: "length (dropWhile isWs (rev ?d)) \<le> length ?d" "length ?d \<le> length s"
    using length_dropWhile_le [of isWs "rev ?d"] length_dropWhile_le [of isWs s] by simp_all
  have "length (trim s) = length (dropWhile isWs (rev ?d))" by (simp add: trim_def)
  then have l1: "length ?d = length s"
    and l2: "length (dropWhile isWs (rev ?d)) = length (rev ?d)"
    using assms(2) len by simp_all
  have d: "?d = s" using l1 by (rule dropWhile_same_length)
  have r: "dropWhile isWs (rev s) = rev s"
    using dropWhile_same_length [OF l2] by (simp only: d)
  have "\<not> isWs (hd s)" using hd_dropWhile [of isWs s] d assms(1) by simp
  moreover have "\<not> isWs (hd (rev s))" using hd_dropWhile [of isWs "rev s"] r assms(1) by simp
  ultimately show ?thesis using assms(1) by (simp add: hd_rev)
qed

lemma split_ws_trimmed:
  assumes "s \<noteq> []" "\<not> isWs (hd s)" "\<not> isWs (last s)"
  shows "[] \<notin> set (split_ws s)"
proof -
  have "hd (split_ws s) \<noteq> []" using assms by (cases s) (auto simp: hd_split_ws)
  moreover have "[] \<notin> set (tl (split_ws s))" using assms by (simp add: tl_split_ws_nonempty)
  ultimately show ?thesis using split_ws_not_Nil [of s] by (cases "split_ws s") auto
qed

lemma split_ws_word:
  "\<forall>c \<in> set w. \<not> isWs c \<Longrightarrow> split_ws w = [w]"
proof -
  assume "\<forall>c \<in> set w. \<not> isWs c"
  then have "dropWhile (\<lambda>c. \<not> isWs c) w = []" by simp
  then show ?thesis by (subst split_ws.simps) (simp only: list.case)
qed

lemma split_ws_join:
  "ws \<noteq> [] \<Longrightarrow> \<forall>w \<in> set ws. w \<noteq> [] \<and> (\<forall>c \<in> set w. \<not> isWs c)
   \<Longrightarrow> split_ws (join [0x20] ws) = ws"
proof (induction "[0x20 :: jschar]" ws rule: join.induct)
  case 1
  then show ?case by simp
next
  case (2 x)
  then show ?case by (simp add: split_ws_word)
next
  case (3 x y ys)
  let ?r = "join [0x20] (y # ys)"
  have x: "\<forall>c \<in> set x. \<not> isWs c" using 3(3) by simp
  obtain a y' where y: "y = a # y'" using 3(3) by (cases y) auto
  have "\<not> isWs a" using 3(3) y by simp
  then have dr: "dropWhile isWs ?r = ?r" unfolding y join_Cons_Cons by simp
  have tw: "takeWhile (\<lambda>c. \<not> isWs c) (x @ 0x20 # ?r) = x"
    using x isWs_space by (simp add: takeWhile_append2)
  have dw: "dropWhile (\<lambda>c. \<not> isWs c) (x @ 0x20 # ?r) = 0x20 # ?r"
    using x isWs_space by (simp add: dropWhile_append2)
  have "split_ws (x @ 0x20 # ?r) = x # split_ws ?r"
    by (subst split_ws.simps) (simp only: tw dw dr list.case)
  then show ?case using 3 by simp
qed

subsection \<open>The claims on the chunker\<close>

lemma replace_ws_last:
  "s \<noteq> [] \<Longrightarrow> \<not> isWs (last s) \<Longrightarrow> replace_ws s \<noteq> [] \<and> last (replace_ws s) = last s"
proof (induction s rule: replace_ws.induct)
  case 1
  then show ?case by simp
next
  case (2 c cs)
  show ?case
  proof (cases "isWs c")
    case True
    then have cs: "cs \<noteq> []" "\<not> isWs (last cs)" using 2(4) by (auto split: if_splits)
    have r: "dropWhile isWs cs \<noteq> []" "last (dropWhile isWs cs) = last cs"
      using last_dropWhile [where P = isWs, OF cs] by auto
    then show ?thesis using True 2(1) [OF True r(1)] cs by simp
  next
    case False
    then show ?thesis using 2(2) [OF False] 2(4) by (cases "cs = []") simp_all
  qed
qed

lemma replace_ws_hd: "s \<noteq> [] \<Longrightarrow> \<not> isWs (hd s) \<Longrightarrow> hd (replace_ws s) = hd s"
  by (cases s) simp_all

lemma ceiling_div_nat:
  assumes "0 < n"
  shows "\<lceil>real a / real_of_int n\<rceil> = int ((a + nat n - 1) div nat n)"
proof -
  define m where "m = nat n"
  define q where "q = (a + m - 1) div m"
  have m: "0 < m" "real_of_int n = real m" using assms by (simp_all add: m_def)
  have "q * m \<le> a + m - 1" by (simp add: q_def)
  then have "q * m < a + m" using m(1) by linarith
  then have lo: "real q * real m < real a + real m"
    by (metis of_nat_add of_nat_less_iff of_nat_mult)
  have "a + m - 1 < m + q * m" unfolding q_def using m(1) by (rule dividend_less_div_times)
  then have "a \<le> q * m" using m(1) by linarith
  then have hi: "real a \<le> real q * real m"
    by (metis of_nat_le_iff of_nat_mult)
  have "(real q - 1) * real m < real a" using lo by (simp add: algebra_simps)
  then have "real q - 1 < real a / real m" using m(1) by (simp add: pos_less_divide_eq)
  then have "real_of_int (int q) - 1 < real a / real m" by simp
  moreover have "real a / real m \<le> real_of_int (int q)"
    using hi m(1) by (simp add: pos_divide_le_eq)
  ultimately have "\<lceil>real a / real m\<rceil> = int q" by (rule ceiling_unique)
  then show ?thesis by (simp add: m(2) q_def m_def)
qed

lemma chunkText_closed:
  "0 < n \<Longrightarrow> chunkText text n = Some (map (join (js '' '')) (windows (nat n) (split_ws text)))"
  using chunk_loop_closed [of n 0 "split_ws text" "[]"] by (simp add: chunkText_def)

lemma chunkText_nonpositive: "n \<le> 0 \<Longrightarrow> chunkText text n = None"
proof (rule ccontr)
  assume n: "n \<le> 0" and "chunkText text n \<noteq> None"
  then obtain y where "chunk_loop (split_ws text) n 0 [] = Some y"
    by (auto simp: chunkText_def)
  from chunk_loop_stuck [OF this] n have "\<not> 0 < int (length (split_ws text))" by simp
  then show False using split_ws_not_Nil [of "text"] by simp
qed

lemma chunkText_guarded_invalid:
  "text = [] \<or> chunkSize \<le> 0 \<Longrightarrow> chunkText_guarded text chunkSize = Some (Inl InvalidInputText)"
  by (simp add: chunkText_guarded_def)

lemma chunkText_guarded_valid:
  "text \<noteq> [] \<Longrightarrow> 0 < chunkSize \<Longrightarrow>
   chunkText_guarded text chunkSize
   = Some (Inr (map (join (js '' '')) (windows (nat chunkSize) (split_ws text))))"
  using chunk_loop_closed [of chunkSize 0 "split_ws text" "[]"]
  by (simp add: chunkText_guarded_def)

lemma wordCount_join:
  assumes "g \<noteq> []" "\<forall>w \<in> set g. w \<noteq> [] \<and> (\<forall>c \<in> set w. \<not> isWs c)"
  shows "wordCount (join [0x20] g) = length g"
proof -
  have "filter (\<lambda>w. w \<noteq> []) g = g" using assms(2) by (simp add: filter_id_conv)
  then show ?thesis using split_ws_join [OF assms] by (simp add: wordCount_def)
qed

text \<open>
  Claim C1, as amended. For every non-empty text that has no leading and no trailing
  whitespace and every chunk size \<open>n > 0\<close>, \<open>chunkText\<close> returns, and returns exactly
  \<open>ceil(wordCount(text) / n)\<close> chunks; every chunk contains at most \<open>n\<close> words; and
  joining the chunks in order with single spaces gives the whitespace-normalized text.
\<close>

theorem chunkText_trimmed_text:
  assumes "text \<noteq> []" and "trim text = text" and "0 < n"
  shows "\<exists>chunks. chunkText text n = Some chunks
           \<and> int (length chunks) = \<lceil>real (wordCount text) / real_of_int n\<rceil>
           \<and> (\<forall>c \<in> set chunks. int (wordCount c) \<le> n)
           \<and> join (js '' '') chunks = normalize_ws text"
proof -
  let ?ws = "split_ws text"
  let ?gs = "windows (nat n) ?ws"
  let ?chunks = "map (join (js '' '')) ?gs"
  have ends: "\<not> isWs (hd text)" "\<not> isWs (last text)"
    using trim_eq_self [OF assms(1,2)] by simp_all
  have words: "\<forall>w \<in> set ?ws. w \<noteq> [] \<and> (\<forall>c \<in> set w. \<not> isWs c)"
    using split_ws_trimmed [OF assms(1) ends] split_ws_no_ws [of "text"] by auto
  then have "filter (\<lambda>w. w \<noteq> []) ?ws = ?ws" by (simp add: filter_id_conv)
  then have wc: "wordCount text = length ?ws" by (simp add: wordCount_def)
  have n: "0 < nat n" using assms(3) by simp
  have 1: "chunkText text n = Some ?chunks" using assms(3) by (rule chunkText_closed)
  have 2: "int (length ?chunks) = \<lceil>real (wordCount text) / real_of_int n\<rceil>"
    using length_windows [OF n, of ?ws] ceiling_div_nat [OF assms(3), of "length ?ws"] wc
    by simp
  have 3: "\<forall>c \<in> set ?chunks. int (wordCount c) \<le> n"
  proof
    fix c assume "c \<in> set ?chunks"
    then obtain g where g: "g \<in> set ?gs" and c: "c = join [0x20] g" by (auto simp: js_space)
    from windows_member [OF n g] have gg: "g \<noteq> []" "length g \<le> nat n" "set g \<subseteq> set ?ws"
      by simp_all
    have "\<forall>w \<in> set g. w \<noteq> [] \<and> (\<forall>c \<in> set w. \<not> isWs c)" using gg(3) words by blast
    from wordCount_join [OF gg(1) this] gg(2) c assms(3) show "int (wordCount c) \<le> n" by simp
  qed
  have "\<forall>g \<in> set ?gs. g \<noteq> []" using windows_member [OF n] by blast
  then have "join (js '' '') ?chunks = join (js '' '') (concat ?gs)" by (rule join_concat)
  also have "\<dots> = replace_ws text" using concat_windows [OF n, of ?ws] by (simp add: js_space join_split_ws)
  finally have j: "join (js '' '') ?chunks = replace_ws text" .
  have r: "replace_ws text \<noteq> []" "last (replace_ws text) = last text"
    using replace_ws_last [OF assms(1) ends(2)] by simp_all
  have "trim (replace_ws text) = replace_ws text"
    using r ends replace_ws_hd [OF assms(1) ends(1)] by (intro trim_fixed) simp_all
  then have 4: "join (js '' '') ?chunks = normalize_ws text" using j by (simp add: normalize_ws_def)
  from 1 2 3 4 show ?thesis by blast
qed


text \<open>The hypotheses of C1 hold of the text \<^verbatim>\<open>"a b c"\<close> and the chunk size 2.\<close>

theorem chunkText_trimmed_text_witness:
  "js ''a b c'' \<noteq> [] \<and> trim (js ''a b c'') = js ''a b c'' \<and> (0::int) < 2 \<and>
   (\<exists>chunks. chunkText (js ''a b c'') 2 = Some chunks
           \<and> int (length chunks) = \<lceil>real (wordCount (js ''a b c'')) / real_of_int 2\<rceil>
           \<and> (\<forall>c \<in> set chunks. int (wordCount c) \<le> 2)
           \<and> join (js '' '') chunks = normalize_ws (js ''a b c''))"
proof -
  have 1: "js ''a b c'' \<noteq> []" by (simp add: js_def)
  have 2: "trim (js ''a b c'') = js ''a b c''" by (simp add: js_def trim_def isWs_def)
  have 3: "(0::int) < 2" by simp
  from chunkText_trimmed_text [OF 1 2 3] 1 2 3 show ?thesis by blast
qed

text \<open>
  Claim C1 as it is stated, for every non-empty text, fails on a text that starts with
  whitespace: \<^verbatim>\<open>" a".split(/\s+/)\<close> is \<^verbatim>\<open>["", "a"]\<close>, so \<^verbatim>\<open>chunkText(" a", 1)\<close>
  returns the two chunks \<^verbatim>\<open>""\<close> and \<^verbatim>\<open>"a"\<close> for a text of one word, and joining them
  gives \<^verbatim>\<open>" a"\<close>, not the normalized text \<^verbatim>\<open>"a"\<close>.
\<close>

theorem chunkText_leading_space_counterexample:
  "js '' a'' \<noteq> [] \<and> (0::int) < 1 \<and>
   chunkText (js '' a'') 1 = Some [js '''', js ''a''] \<and>
   int (length [js '''', js ''a'']) \<noteq> \<lceil>real (wordCount (js '' a'')) / real_of_int 1\<rceil> \<and>
   join (js '' '') [js '''', js ''a''] \<noteq> normalize_ws (js '' a'')"
proof -
  have 1: "chunkText (js '' a'') 1 = Some [js '''', js ''a'']" by code_simp
  have 2: "wordCount (js '' a'') = 1" by code_simp
  have 3: "normalize_ws (js '' a'') = js ''a''" by code_simp
  have 4: "join (js '' '') [js '''', js ''a''] = js '' a''" by code_simp
  have 5: "js '' a'' \<noteq> js ''a''" "js '' a'' \<noteq> []" by (simp_all add: js_def)
  have 6: "int (length [js [], js ''a'']) \<noteq> \<lceil>real (wordCount (js '' a'')) / real_of_int 1\<rceil>"
    by (simp add: 2)
  have 7: "join (js '' '') [js [], js ''a''] \<noteq> normalize_ws (js '' a'')"
    unfolding 3 4 by (rule 5(1))
  have 8: "(0::int) < 1" by simp
  from 5(2) 8 1 6 7 show ?thesis by blast
qed

text \<open>
  Claim C2 on \<^verbatim>\<open>src/index.js\<close>: its \<open>chunkText\<close> has lost the check of the other two
  variants. On the empty text it returns the one chunk \<^verbatim>\<open>""\<close>, and with the chunk size 0
  it never returns, where \<open>chunkText_guarded\<close> throws \<^verbatim>\<open>Error("Invalid input text")\<close>.
\<close>

theorem chunkText_index_accepts_invalid_input:
  "chunkText (js '''') 500 = Some [js ''''] \<and>
   chunkText (js ''a b'') 0 = None \<and>
   chunkText_guarded (js '''') 500 = Some (Inl InvalidInputText) \<and>
   chunkText_guarded (js ''a b'') 0 = Some (Inl InvalidInputText)"
proof -
  have "chunkText (js '''') 500 = Some [js '''']" by code_simp
  then show ?thesis
    by (simp add: chunkText_nonpositive chunkText_guarded_invalid js_def)
qed

text \<open>
  Claim C10. With a positive chunk size \<open>chunkText\<close> returns for every text; with a chunk
  size that is zero or negative the loop of \<^verbatim>\<open>src/index.js\<close> never ends, since the index
  never passes the number of words. The guarded variant returns (a value or its error)
  for every input.
\<close>

theorem chunkText_terminates_iff_positive:
  "(0 < chunkSize \<longrightarrow> chunkText text chunkSize \<noteq> None) \<and>
   (chunkSize \<le> 0 \<longrightarrow> chunkText text chunkSize = None) \<and>
   chunkText_guarded text chunkSize \<noteq> None"
proof (intro conjI impI)
  assume "0 < chunkSize"
  then show "chunkText text chunkSize \<noteq> None" by (simp add: chunkText_closed)
next
  assume "chunkSize \<le> 0"
  then show "chunkText text chunkSize = None" by (rule chunkText_nonpositive)
next
  show "chunkText_guarded text chunkSize \<noteq> None"
  proof (cases "text = [] \<or> chunkSize \<le> 0")
    case True
    then show ?thesis by (simp add: chunkText_guarded_invalid)
  next
    case False
    then show ?thesis by (simp add: chunkText_guarded_valid)
  qed
qed

text \<open>Both hypotheses of C10 at the text \<^verbatim>\<open>"a b c"\<close>: the chunk sizes 2 and 0.\<close>

theorem chunkText_terminates_iff_positive_witness:
  "(0::int) < 2 \<and> chunkText (js ''a b c'') 2 \<noteq> None \<and>
   (0::int) \<le> 0 \<and> chunkText (js ''a b c'') 0 = None"
  using chunkText_terminates_iff_positive [of 2 "js ''a b c''"]
    chunkText_terminates_iff_positive [of 0 "js ''a b c''"]
  by simp

section \<open>Properties of the pipeline\<close>

subsection \<open>Calls, embeddings and the loop of ingest\<close>

lemma calls_log_call: "calls (log_call c w) = calls w @ [c]"
  by (simp add: log_call_def)

lemma store_log_call: "store (log_call c w) = store w"
  by (simp add: log_call_def)

lemma length_trim_le: "length (trim s) \<le> length s"
proof -
  have "length (trim s) \<le> length (dropWhile isWs s)"
    using length_dropWhile_le [of isWs "rev (dropWhile isWs s)"] by (simp add: trim_def)
  also have "\<dots> \<le> length s" by (rule length_dropWhile_le)
  finally show ?thesis .
qed

lemma generateVectorEmbeddings_snd:
  "snd (generateVectorEmbeddings sv t w) = log_call (Embed t) w"
  by (simp add: generateVectorEmbeddings_def Let_def split: sum.split)

lemma generateVectorEmbeddings_fst:
  "fst (generateVectorEmbeddings sv t w)
   = (case embedContent sv t of Inl e \<Rightarrow> Some [] | Inr values \<Rightarrow> values)"
  by (simp add: generateVectorEmbeddings_def Let_def split: sum.split)

lemma scrapeWebPage_snd: "snd (scrapeWebPage sv url w) = log_call (Fetch url) w"
  by (simp add: scrapeWebPage_def Let_def split: sum.split prod.split)


lemma insertIntoDB_skip:
  "embedding = None \<or> embedding = Some [] \<Longrightarrow>
   insertIntoDB sv k embedding url body head w = (Inr (), w)"
  by (auto simp: insertIntoDB_def)

lemma ingest_chunk_skip:
  assumes "embedContent sv chunk = Inl e \<or> embedContent sv chunk = Inr None
           \<or> embedContent sv chunk = Inr (Some [])"
  shows "ingest_chunk sv url head chunk i w = (Inr (), log_call (Embed chunk) w)"
  using assms by (auto simp: ingest_chunk_def generateVectorEmbeddings_def insertIntoDB_def)

text \<open>Every iteration, and so the loop, only adds writes of non-empty embeddings.\<close>

lemma ingest_chunk_adds:
  "adds_nonempty (calls w) \<Longrightarrow> adds_nonempty (calls (snd (ingest_chunk sv url head chunk i w)))"
  by (auto simp: ingest_chunk_def generateVectorEmbeddings_def insertIntoDB_def Let_def
      adds_nonempty_def calls_log_call split: sum.split option.split)

lemma ingest_loop_adds:
  "adds_nonempty (calls w) \<Longrightarrow> adds_nonempty (calls (snd (ingest_loop sv url head chunks i w)))"
proof (induction chunks arbitrary: i w)
  case Nil
  then show ?case by simp
next
  case (Cons c cs)
  obtain r w1 where s: "ingest_chunk sv url head c i w = (r, w1)" by (cases "ingest_chunk sv url head c i w")
  then have a: "adds_nonempty (calls w1)" using ingest_chunk_adds [OF Cons.prems, of sv url head c i] by simp
  show ?case using s a Cons.IH [OF a] by (cases r) simp_all
qed

lemma ingest_chunk_store_cases:
  "store (snd (ingest_chunk sv url head chunk i w)) = store w \<or>
   (\<exists>v c'. v \<noteq> [] \<and> fst (generateVectorEmbeddings sv chunk w) = Some v \<and>
      collection_add sv (store w) (chunkId url i) v
        \<lparr>meta_url = url, meta_head = head, meta_body = chunk\<rparr> = Inr c' \<and>
      fst (ingest_chunk sv url head chunk i w) = Inr () \<and>
      store (snd (ingest_chunk sv url head chunk i w)) = c')"
  by (auto simp: ingest_chunk_def generateVectorEmbeddings_def insertIntoDB_def Let_def
      store_log_call split: sum.split option.split)

lemma ingest_chunk_store:
  assumes "writes_by_id sv" "no_empty_embedding (store w)"
  shows "no_empty_embedding (store (snd (ingest_chunk sv url head chunk i w)))"
proof -
  let ?w' = "snd (ingest_chunk sv url head chunk i w)"
  let ?md = "\<lparr>meta_url = url, meta_head = head, meta_body = chunk\<rparr>"
  from ingest_chunk_store_cases [of sv url head chunk i w]
  show ?thesis
  proof
    assume "store ?w' = store w"
    then show ?thesis using assms(2) by simp
  next
    assume "\<exists>v c'. v \<noteq> [] \<and> fst (generateVectorEmbeddings sv chunk w) = Some v \<and>
      collection_add sv (store w) (chunkId url i) v ?md = Inr c' \<and>
      fst (ingest_chunk sv url head chunk i w) = Inr () \<and> store ?w' = c'"
    then obtain v c' where v: "v \<noteq> []"
      and add: "collection_add sv (store w) (chunkId url i) v ?md = Inr c'"
      and st: "store ?w' = c'" by blast
    from assms(1) add have "c' = (store w)(chunkId url i \<mapsto> (v, ?md))"
      unfolding writes_by_id_def by blast
    then show ?thesis using v st assms(2) by (auto simp: no_empty_embedding_def)
  qed
qed

lemma ingest_loop_store:
  assumes "writes_by_id sv"
  shows "no_empty_embedding (store w)
         \<Longrightarrow> no_empty_embedding (store (snd (ingest_loop sv url head chunks i w)))"
proof (induction chunks arbitrary: i w)
  case Nil
  then show ?case by simp
next
  case (Cons c cs)
  obtain r w1 where s: "ingest_chunk sv url head c i w = (r, w1)" by (cases "ingest_chunk sv url head c i w")
  then have a: "no_empty_embedding (store w1)"
    using ingest_chunk_store [OF assms Cons.prems, of url head c i] by simp
  show ?case using s a Cons.IH [OF a] by (cases r) simp_all
qed

lemma ingest_returns:
  "\<exists>r w'. ingest sv url w = Some (r, w')"
proof (cases "scrapeWebPage sv url w")
  case (Pair res w1)
  show ?thesis
  proof (cases res)
    case (Inl e)
    then show ?thesis using Pair by (simp add: ingest_def)
  next
    case (Inr p)
    obtain head body where p: "p = (head, body)" by (cases p)
    let ?chunks = "map (join (js '' '')) (windows (nat 500) (split_ws body))"
    have c: "chunkText body 500 = Some ?chunks" by (rule chunkText_closed) simp
    obtain r2 w2 where "ingest_loop sv url head ?chunks 0 w1 = (r2, w2)"
      by (cases "ingest_loop sv url head ?chunks 0 w1")
    then show ?thesis using Pair Inr p c by (cases r2) (simp_all add: ingest_def)
  qed
qed

subsection \<open>The example page\<close>

lemma page_text_long: "length (trim page_text) = 62" "page_text \<noteq> []"
  by (simp_all add: page_text_def js_def trim_def isWs_def)

lemma normalize_page_text: "normalize_ws page_text = page_text"
  unfolding page_text_def by code_simp

lemma chunkText_page_text: "chunkText page_text 500 = Some [page_text]"
  unfolding page_text_def by code_simp

lemma scrape_test_page:
  "puppeteer_page sv url = Inr (page_text, t) \<Longrightarrow>
   scrapeWebPage sv url w = (Inr (t, page_text), log_call (Fetch url) w)"
  by (simp add: scrapeWebPage_def page_text_long normalize_page_text)

subsection \<open>Sets in insertion order\<close>

lemma new_Set_acc: "foldl Set_add acc xs = acc @ first_seen (filter (\<lambda>x. x \<notin> set acc) xs)"
proof (induction xs arbitrary: acc)
  case Nil
  then show ?case by simp
next
  case (Cons x xs)
  show ?case
  proof (cases "x \<in> set acc")
    case True
    then show ?thesis using Cons.IH [of acc] by (simp add: Set_add_def)
  next
    case False
    have "filter (\<lambda>y. y \<notin> set (acc @ [x])) xs = filter (\<lambda>y. y \<noteq> x) (filter (\<lambda>y. y \<notin> set acc) xs)"
      by (induction xs) auto
    then show ?thesis using False Cons.IH [of "acc @ [x]"] by (simp add: Set_add_def)
  qed
qed

lemma new_Set_first_seen: "new_Set xs = first_seen xs"
  using new_Set_acc [of "[]" xs] by (simp add: new_Set_def)

lemma set_first_seen: "set (first_seen xs) = set xs"
  by (induction xs rule: first_seen.induct) auto

lemma distinct_first_seen: "distinct (first_seen xs)"
  by (induction xs rule: first_seen.induct) (auto simp: set_first_seen)

lemma first_seen_remdups: "first_seen xs = rev (remdups (rev xs))"
proof (induction xs rule: first_seen.induct)
  case 1
  then show ?case by simp
next
  case (2 x xs)
  have r: "remdups (ys @ [x]) = filter (\<lambda>y. y \<noteq> x) (remdups ys) @ [x]" for ys :: "'a list"
    by (induction ys) auto
  have "remdups (filter P ys) = filter P (remdups ys)" for P and ys :: "'a list"
    by (induction ys) auto
  then show ?case using 2 by (simp add: r rev_filter)
qed

text \<open>
  The source URLs of \<open>chat\<close>: the URLs of the records, each once, in the order of their
  first occurrence.
\<close>

lemma urls_first_seen:
  "urls ms = first_seen (map meta_url ms)
   \<and> distinct (urls ms)
   \<and> set (urls ms) = set (map meta_url ms)"
  by (simp add: urls_def new_Set_first_seen distinct_first_seen set_first_seen)

subsection \<open>The steps of chat and of ingest\<close>

lemma chat_unfold:
  "chat sv question w =
     (let qe = fst (generateVectorEmbeddings sv question w);
          w2 = log_call GetCollection (log_call (Embed question) w)
      in case collection_error sv of
           Some e \<Rightarrow> (Inl e, w2)
         | None \<Rightarrow>
             (let w3 = log_call (Query qe 3) w2 in
              case collection_query sv (store w) qe 3 of
                Inl e \<Rightarrow> (Inl e, w3)
              | Inr results \<Rightarrow>
                  (let ms = (case results of None \<Rightarrow> [] | Some ms \<Rightarrow> ms) in
                   if ms = [] then (Inr NoRelevantContext, w3)
                   else
                     (let p = prompt question (urls ms) (bodies ms) in
                      case generateContent sv p of
                        Inl e \<Rightarrow> (Inl e, log_call (Generate p) w3)
                      | Inr t \<Rightarrow> (Inr (Answered t), log_call (Generate p) w3)))))"
proof -
  obtain qe w1 where g: "generateVectorEmbeddings sv question w = (qe, w1)"
    by (cases "generateVectorEmbeddings sv question w")
  have w1: "w1 = log_call (Embed question) w"
    using generateVectorEmbeddings_snd [of sv question w] g by simp
  show ?thesis
    unfolding chat_def g
    by (simp add: w1 Let_def store_log_call split: option.split sum.split)
qed

lemma ingest_chunk_result:
  "fst (ingest_chunk sv url head chunk i w) = Inr ()
   \<or> (\<exists>e. fst (ingest_chunk sv url head chunk i w) = Inl e
        \<and> (collection_error sv = Some e \<or> (\<exists>c k v m. collection_add sv c k v m = Inl e)))"
  by (auto simp: ingest_chunk_def generateVectorEmbeddings_def insertIntoDB_def Let_def
      split: sum.split option.split)

lemma ingest_loop_result:
  "fst (ingest_loop sv url head chunks i w) = Inr ()
   \<or> (\<exists>e. fst (ingest_loop sv url head chunks i w) = Inl e
        \<and> (collection_error sv = Some e \<or> (\<exists>c k v m. collection_add sv c k v m = Inl e)))"
proof (induction chunks arbitrary: i w)
  case Nil
  then show ?case by simp
next
  case (Cons c cs)
  obtain r w1 where s: "ingest_chunk sv url head c i w = (r, w1)"
    by (cases "ingest_chunk sv url head c i w")
  show ?case
  proof (cases r)
    case (Inl e)
    then show ?thesis using s ingest_chunk_result [of sv url head c i w] by auto
  next
    case (Inr u)
    then show ?thesis using s Cons.IH [of "Suc i" w1] by simp
  qed
qed

lemma ingest_unfold:
  "ingest sv url w =
     (case fst (scrapeWebPage sv url w) of
        Inl e \<Rightarrow> Some (FailedToIngest, log_call (Fetch url) w)
      | Inr (head, body) \<Rightarrow>
          (let chunks = map (join (js '' '')) (windows 500 (split_ws body));
               res = ingest_loop sv url head chunks 0 (log_call (Fetch url) w)
           in Some (case fst res of Inl e \<Rightarrow> FailedToIngest | Inr u \<Rightarrow> Ingested, snd res)))"
proof -
  obtain r w1 where s: "scrapeWebPage sv url w = (r, w1)" by (cases "scrapeWebPage sv url w")
  have w1: "w1 = log_call (Fetch url) w" using scrapeWebPage_snd [of sv url w] s by simp
  have c: "chunkText body 500 = Some (map (join (js '' '')) (windows 500 (split_ws body)))"
    for body
    using chunkText_closed [of 500 body] by simp
  show ?thesis
    unfolding ingest_def s
    by (simp add: w1 c Let_def split: sum.split prod.split)
qed

lemma ingest_store_rejects:
  "fst (scrapeWebPage (store_rejects test_services) (js ''u'') empty_world)
     = Inr (js ''Title'', page_text)"
  "map_option fst (ingest (store_rejects test_services) (js ''u'') empty_world)
     = Some FailedToIngest"
proof -
  let ?rej = "store_rejects test_services"
  show 5: "fst (scrapeWebPage ?rej (js ''u'') empty_world) = Inr (js ''Title'', page_text)"
    by (simp add: scrape_test_page store_rejects_def test_services_def)
  have 6: "map (join (js '' '')) (windows 500 (split_ws page_text)) = [page_text]"
    using chunkText_page_text chunkText_closed [of 500 page_text] by simp
  have l: "fst (ingest_loop ?rej (js ''u'') (js ''Title'') [page_text] 0 w)
           = Inl (ServiceError ''write rejected'')" for w
    by (simp add: ingest_chunk_def generateVectorEmbeddings_def insertIntoDB_def
        store_rejects_def test_services_def Let_def)
  show "map_option fst (ingest ?rej (js ''u'') empty_world) = Some FailedToIngest"
    by (simp add: ingest_unfold 5 6 l Let_def del: ingest_loop.simps)
qed

subsection \<open>Chunk ids and a store that overwrites by id\<close>





text \<open>The embedding that \<open>generateVectorEmbeddings\<close> gives for a text: the world plays no part.\<close>

lemma embedding_world:
  "fst (generateVectorEmbeddings sv t w) = fst (generateVectorEmbeddings sv t w')"
  by (simp add: generateVectorEmbeddings_fst)








subsection \<open>The text that reaches the chunker\<close>

lemma set_takeWhile_dropWhile: "set xs = set (takeWhile P xs) \<union> set (dropWhile P xs)"
proof -
  have "set xs = set (takeWhile P xs @ dropWhile P xs)" by (simp only: takeWhile_dropWhile_id)
  then show ?thesis by (simp only: set_append)
qed

lemma in_dropWhile: "c \<in> set xs \<Longrightarrow> \<not> P c \<Longrightarrow> c \<in> set (dropWhile P xs)"
  using set_takeWhile_dropWhile [of xs P] by (auto dest: set_takeWhileD)

lemma trim_Nil_iff: "trim s = [] \<longleftrightarrow> (\<forall>c \<in> set s. isWs c)"
proof
  assume "trim s = []"
  then have "dropWhile isWs (rev (dropWhile isWs s)) = []" by (simp add: trim_def)
  then have d: "\<forall>c \<in> set (dropWhile isWs s). isWs c" by (simp add: dropWhile_eq_Nil_conv)
  show "\<forall>c \<in> set s. isWs c"
  proof
    fix c assume "c \<in> set s"
    then show "isWs c" using d in_dropWhile [of c s isWs] by blast
  qed
next
  assume "\<forall>c \<in> set s. isWs c"
  then have e: "dropWhile isWs s = []" by simp
  show "trim s = []" unfolding trim_def e by simp
qed

lemma trim_ends:
  assumes "trim s \<noteq> []"
  shows "\<not> isWs (hd (trim s)) \<and> \<not> isWs (last (trim s))"
proof -
  let ?d = "dropWhile isWs s"
  let ?r = "dropWhile isWs (rev ?d)"
  have r: "?r \<noteq> []" "trim s = rev ?r" using assms by (simp_all add: trim_def)
  have d: "?d \<noteq> []"
  proof
    assume "?d = []"
    then have "?r = []" by (simp only: rev.simps dropWhile.simps)
    with r(1) show False by simp
  qed
  have 1: "\<not> isWs (hd ?r)" using hd_dropWhile [OF r(1)] .
  have e: "rev ?d \<noteq> []" "\<not> isWs (last (rev ?d))"
    using d hd_dropWhile [OF d] by (simp_all add: last_rev)
  have "last ?r = last (rev ?d)" using last_dropWhile [where P = isWs, OF e] by blast
  then have 2: "\<not> isWs (last ?r)" using e(2) by simp
  have "hd (rev ?r) = last ?r" "last (rev ?r) = hd ?r" using r(1) by (simp_all add: hd_rev last_rev)
  then show ?thesis using 1 2 by (simp only: r(2)) simp
qed

lemma replace_ws_keeps: "c \<in> set s \<Longrightarrow> \<not> isWs c \<Longrightarrow> c \<in> set (replace_ws s)"
proof (induction s rule: replace_ws.induct)
  case 1
  then show ?case by simp
next
  case (2 d ds)
  show ?case
  proof (cases "isWs d")
    case True
    then have "c \<in> set ds" using 2(3,4) by auto
    then have "c \<in> set (dropWhile isWs ds)" using 2(4) by (rule in_dropWhile)
    then show ?thesis using True 2(1) 2(4) by simp
  next
    case False
    then show ?thesis using 2(2,3,4) by auto
  qed
qed

text \<open>
  What \<open>scrapeWebPage\<close> hands to the chunker: a text that is not empty and has no
  whitespace at either end.
\<close>

lemma scraped_body_trimmed:
  assumes "scrapeWebPage sv url w = (Inr (head, body), w1)"
  shows "body \<noteq> [] \<and> trim body = body"
proof -
  obtain raw t where p: "puppeteer_page sv url = Inr (raw, t)"
    using assms by (cases "puppeteer_page sv url") (auto simp: scrapeWebPage_def Let_def)
  have raw: "\<not> length (trim raw) < 50" "body = normalize_ws raw"
    using assms p by (auto simp: scrapeWebPage_def Let_def split: if_splits)
  have "trim raw \<noteq> []" using raw(1) by auto
  then obtain c where c: "c \<in> set raw" "\<not> isWs c" using trim_Nil_iff [of raw] by blast
  then have "c \<in> set (replace_ws raw)" by (rule replace_ws_keeps)
  then have ne: "body \<noteq> []"
    using c(2) trim_Nil_iff [of "replace_ws raw"] raw(2) by (auto simp: normalize_ws_def)
  then have "\<not> isWs (hd body) \<and> \<not> isWs (last body)"
    using trim_ends [of "replace_ws raw"] raw(2) by (simp add: normalize_ws_def)
  then show ?thesis using ne trim_fixed by blast
qed

subsection \<open>Calls that the store rejects\<close>

lemma ingest_chunk_rejected:
  "(\<exists>e. fst (ingest_chunk sv url head chunk i w) = Inl e) \<longleftrightarrow> call_rejected sv url head chunk i w"
  by (auto simp: ingest_chunk_def generateVectorEmbeddings_def insertIntoDB_def Let_def
      call_rejected_def store_log_call split: sum.splits option.splits if_splits)

lemma ingest_chunk_accepted:
  "fst (ingest_chunk sv url head chunk i w) = Inr () \<longleftrightarrow> \<not> call_rejected sv url head chunk i w"
proof -
  have "fst (ingest_chunk sv url head chunk i w) = Inr () \<longleftrightarrow>
        \<not> (\<exists>e. fst (ingest_chunk sv url head chunk i w) = Inl e)"
    by (cases "fst (ingest_chunk sv url head chunk i w)") auto
  then show ?thesis by (simp only: ingest_chunk_rejected)
qed

lemma embed_calls_append: "embed_calls (xs @ ys) = embed_calls xs @ embed_calls ys"
  by (simp add: embed_calls_def)

lemma ingest_chunk_embed_calls:
  "embed_calls (calls (snd (ingest_chunk sv url head chunk i w))) = embed_calls (calls w) @ [chunk]"
  by (auto simp: ingest_chunk_def generateVectorEmbeddings_def insertIntoDB_def Let_def
      calls_log_call embed_calls_append embed_calls_def split: sum.splits option.splits)

lemma ingest_loop_embed_calls:
  "fst (ingest_loop sv url head chunks i w) = Inr () \<Longrightarrow>
   embed_calls (calls (snd (ingest_loop sv url head chunks i w))) = embed_calls (calls w) @ chunks"
proof (induction chunks arbitrary: i w)
  case Nil
  then show ?case by simp
next
  case (Cons c cs)
  obtain r w1 where s: "ingest_chunk sv url head c i w = (r, w1)"
    by (cases "ingest_chunk sv url head c i w")
  have r: "r = Inr ()" using Cons.prems s by (cases r) simp_all
  have e: "embed_calls (calls w1) = embed_calls (calls w) @ [c]"
    using ingest_chunk_embed_calls [of sv url head c i w] s by simp
  have "fst (ingest_loop sv url head cs (Suc i) w1) = Inr ()" using Cons.prems s r by simp
  from Cons.IH [OF this] show ?case using s r e by simp
qed

text \<open>
  The loop ends with an error exactly when the store rejects a call of some iteration
  that the iterations before it have reached.
\<close>

lemma ingest_loop_rejected:
  "(\<exists>e. fst (ingest_loop sv url head chunks i w) = Inl e) \<longleftrightarrow>
   (\<exists>j<length chunks.
      fst (ingest_loop sv url head (take j chunks) i w) = Inr () \<and>
      call_rejected sv url head (chunks ! j) (i + j)
        (snd (ingest_loop sv url head (take j chunks) i w)))"
proof (induction chunks arbitrary: i w)
  case Nil
  then show ?case by simp
next
  case (Cons c cs)
  obtain r w1 where s: "ingest_chunk sv url head c i w = (r, w1)"
    by (cases "ingest_chunk sv url head c i w")
  let ?R = "\<lambda>j. fst (ingest_loop sv url head (take j (c # cs)) i w) = Inr () \<and>
      call_rejected sv url head ((c # cs) ! j) (i + j)
        (snd (ingest_loop sv url head (take j (c # cs)) i w))"
  show ?case
  proof (cases r)
    case (Inl e)
    then have "call_rejected sv url head c i w"
      using ingest_chunk_rejected [of sv url head c i w] s by auto
    then have "?R 0" by simp
    then have "\<exists>j<length (c # cs). ?R j" by blast
    moreover have "\<exists>e. fst (ingest_loop sv url head (c # cs) i w) = Inl e" using s Inl by simp
    ultimately show ?thesis by blast
  next
    case (Inr u)
    then have ok: "\<not> call_rejected sv url head c i w"
      using ingest_chunk_accepted [of sv url head c i w] s by auto
    have step: "ingest_loop sv url head (c # xs) i w = ingest_loop sv url head xs (Suc i) w1" for xs
      using s Inr by simp
    let ?S = "\<lambda>j. fst (ingest_loop sv url head (take j cs) (Suc i) w1) = Inr () \<and>
      call_rejected sv url head (cs ! j) (Suc i + j)
        (snd (ingest_loop sv url head (take j cs) (Suc i) w1))"
    have shift: "?R (Suc j) \<longleftrightarrow> ?S j" for j by (simp add: step del: ingest_loop.simps)
    have r0: "\<not> ?R 0" using ok by simp
    have "(\<exists>j<length (c # cs). ?R j) \<longleftrightarrow> (\<exists>j<length cs. ?S j)"
    proof
      assume "\<exists>j<length (c # cs). ?R j"
      then obtain j where j: "j < length (c # cs)" "?R j" by blast
      then obtain j' where "j = Suc j'" using r0 by (cases j) auto
      then show "\<exists>j<length cs. ?S j" using j shift [of j'] by auto
    next
      assume "\<exists>j<length cs. ?S j"
      then obtain j where "j < length cs" "?S j" by blast
      then have "Suc j < length (c # cs)" "?R (Suc j)" using shift [of j] by auto
      then show "\<exists>j<length (c # cs). ?R j" by blast
    qed
    then show ?thesis using Cons.IH [of "Suc i" w1] step [of cs] by simp
  qed
qed

lemma ingest_report_fst:
  assumes "fst (scrapeWebPage sv url w) = Inr (head, body)" "chunkText body 500 = Some chunks"
  shows "ingest sv url w
         = Some (case fst (ingest_loop sv url head chunks 0 (log_call (Fetch url) w)) of
                   Inl e \<Rightarrow> FailedToIngest | Inr u \<Rightarrow> Ingested,
                 snd (ingest_loop sv url head chunks 0 (log_call (Fetch url) w)))"
proof -
  have "chunks = map (join (js '' '')) (windows 500 (split_ws body))"
    using assms(2) chunkText_closed [of 500 body] by simp
  then show ?thesis using assms(1) by (simp add: ingest_unfold Let_def)
qed

subsection \<open>The claims on the pipeline\<close>

text \<open>
  Claim C9. Whenever the browser yields a body whose length, or whose length once
  trimmed, is below 50, \<open>scrapeWebPage\<close> throws, and \<open>ingest\<close> reports the failure for
  that URL with nothing written to the store.
\<close>

theorem scrapeWebPage_too_short:
  assumes "puppeteer_page sv url = Inr (body, head)"
    and "length body < 50 \<or> length (trim body) < 50"
  shows "scrapeWebPage sv url w = (Inl ScrapedContentTooShort, log_call (Fetch url) w)
         \<and> ingest sv url w = Some (FailedToIngest, log_call (Fetch url) w)
         \<and> store (log_call (Fetch url) w) = store w"
proof -
  have "length (trim body) < 50" using assms(2) length_trim_le [of body] by auto
  then have "scrapeWebPage sv url w = (Inl ScrapedContentTooShort, log_call (Fetch url) w)"
    using assms(1) by (simp add: scrapeWebPage_def)
  then show ?thesis by (simp add: ingest_def store_log_call)
qed

text \<open>C9 at a page whose body is \<^verbatim>\<open>"too short"\<close>.\<close>

theorem scrapeWebPage_too_short_witness:
  "puppeteer_page (test_services\<lparr>puppeteer_page := \<lambda>u. Inr (js ''too short'', js ''T'')\<rparr>)
     (js ''u'') = Inr (js ''too short'', js ''T'')
   \<and> length (js ''too short'') < 50
   \<and> ingest (test_services\<lparr>puppeteer_page := \<lambda>u. Inr (js ''too short'', js ''T'')\<rparr>)
        (js ''u'') empty_world
      = Some (FailedToIngest, log_call (Fetch (js ''u'')) empty_world)"
proof -
  let ?sv = "test_services\<lparr>puppeteer_page := \<lambda>u. Inr (js ''too short'', js ''T'')\<rparr>"
  have 1: "puppeteer_page ?sv (js ''u'') = Inr (js ''too short'', js ''T'')" by simp
  have 2: "length (js ''too short'') < 50" by (simp add: js_def)
  from scrapeWebPage_too_short [OF 1 disjI1 [OF 2], of empty_world] 1 2 show ?thesis by blast
qed

text \<open>
  Claim C3. When the store is reachable and its query yields no match (an empty list,
  or no list at all), \<open>chat\<close> returns the no-context outcome, and the calls it has made
  are the embedding of the question, the collection lookup and the query: the
  generative model is not called.
\<close>

theorem chat_no_context:
  assumes "collection_error sv = None"
    and "collection_query sv (store w) (fst (generateVectorEmbeddings sv question w)) 3 = Inr results"
    and "results = None \<or> results = Some []"
  shows "fst (chat sv question w) = Inr NoRelevantContext
         \<and> calls (snd (chat sv question w))
           = calls w @ [Embed question, GetCollection,
                        Query (fst (generateVectorEmbeddings sv question w)) 3]
         \<and> generate_calls (calls (snd (chat sv question w))) = generate_calls (calls w)
         \<and> store (snd (chat sv question w)) = store w"
proof -
  obtain qe w1 where g: "generateVectorEmbeddings sv question w = (qe, w1)"
    by (cases "generateVectorEmbeddings sv question w")
  have w1: "w1 = log_call (Embed question) w"
    using generateVectorEmbeddings_snd [of sv question w] g by simp
  have q: "collection_query sv (store w) qe 3 = Inr results" using assms(2) g by simp
  have "chat sv question w
        = (Inr NoRelevantContext, log_call (Query qe 3) (log_call GetCollection w1))"
    using assms(1,3) q g by (auto simp: chat_def Let_def w1 store_log_call)
  then show ?thesis using g by (simp add: w1 calls_log_call store_log_call generate_calls_def)
qed

text \<open>C3 at the example services, whose store finds nothing.\<close>

theorem chat_no_context_witness:
  "collection_error test_services = None
   \<and> collection_query test_services (store empty_world)
        (fst (generateVectorEmbeddings test_services (js ''What is it?'') empty_world)) 3
      = Inr (Some [])
   \<and> fst (chat test_services (js ''What is it?'') empty_world) = Inr NoRelevantContext
   \<and> generate_calls (calls (snd (chat test_services (js ''What is it?'') empty_world))) = 0"
proof -
  have 1: "collection_error test_services = None" by (simp add: test_services_def)
  have 2: "collection_query test_services (store empty_world)
        (fst (generateVectorEmbeddings test_services (js ''What is it?'') empty_world)) 3
      = Inr (Some [])" by (simp add: test_services_def)
  have 3: "generate_calls (calls empty_world) = 0" by (simp add: generate_calls_def empty_world_def)
  have t: "fst (chat test_services (js ''What is it?'') empty_world) = Inr NoRelevantContext"
    "generate_calls (calls (snd (chat test_services (js ''What is it?'') empty_world)))
     = generate_calls (calls empty_world)"
    using chat_no_context [OF 1 2 disjI2 [OF refl]] by blast+
  from t(2) have 4:
    "generate_calls (calls (snd (chat test_services (js ''What is it?'') empty_world))) = 0"
    by (simp only: 3)
  from 1 2 t(1) 4 show ?thesis by blast
qed

text \<open>
  Claim C4. \<open>insertIntoDB\<close> returns at once, the world untouched, when the embedding is
  absent or empty; an iteration of \<open>ingest\<close> whose embedding call fails or yields no
  vector makes that one call and writes nothing; \<open>ingest\<close> never sends the store a write
  with an empty embedding; and over a store that keeps what is written to it, no record
  with an empty embedding appears.
\<close>

theorem empty_embedding_never_stored:
  "(embedding = None \<or> embedding = Some [] \<longrightarrow>
      insertIntoDB sv k embedding url body head w = (Inr (), w))
   \<and> (embedContent sv chunk = Inl e \<or> embedContent sv chunk = Inr None
        \<or> embedContent sv chunk = Inr (Some []) \<longrightarrow>
      ingest_chunk sv url head chunk i w = (Inr (), log_call (Embed chunk) w)
      \<and> store (log_call (Embed chunk) w) = store w)
   \<and> (adds_nonempty (calls w) \<longrightarrow>
        (\<exists>r w'. ingest sv url w = Some (r, w') \<and> adds_nonempty (calls w')))
   \<and> (writes_by_id sv \<and> no_empty_embedding (store w) \<longrightarrow>
        (\<exists>r w'. ingest sv url w = Some (r, w') \<and> no_empty_embedding (store w')))"
proof (intro conjI impI)
  assume "embedding = None \<or> embedding = Some []"
  then show "insertIntoDB sv k embedding url body head w = (Inr (), w)"
    by (rule insertIntoDB_skip)
next
  assume "embedContent sv chunk = Inl e \<or> embedContent sv chunk = Inr None
        \<or> embedContent sv chunk = Inr (Some [])"
  then show "ingest_chunk sv url head chunk i w = (Inr (), log_call (Embed chunk) w)"
    by (rule ingest_chunk_skip)
next
  show "store (log_call (Embed chunk) w) = store w" by (rule store_log_call)
next
  assume a: "adds_nonempty (calls w)"
  obtain r w' where i: "ingest sv url w = Some (r, w')" using ingest_returns by blast
  have "adds_nonempty (calls w')"
  proof (cases "fst (scrapeWebPage sv url w)")
    case (Inl e')
    then have "w' = log_call (Fetch url) w"
      using i scrapeWebPage_snd [of sv url w]
      by (cases "scrapeWebPage sv url w") (simp add: ingest_def)
    then show ?thesis using a by (simp add: adds_nonempty_def calls_log_call)
  next
    case (Inr p)
    obtain h b where p: "p = (h, b)" by (cases p)
    have s: "scrapeWebPage sv url w = (Inr (h, b), log_call (Fetch url) w)"
      using Inr p scrapeWebPage_snd [of sv url w] by (cases "scrapeWebPage sv url w") simp
    obtain cs where c: "chunkText b 500 = Some cs" by (simp add: chunkText_closed)
    have a1: "adds_nonempty (calls (log_call (Fetch url) w))"
      using a by (simp add: adds_nonempty_def calls_log_call)
    have "w' = snd (ingest_loop sv url h cs 0 (log_call (Fetch url) w))"
      using i s c by (simp add: ingest_def split: prod.splits sum.splits)
    then show ?thesis using ingest_loop_adds [OF a1] by simp
  qed
  then show "\<exists>r w'. ingest sv url w = Some (r, w') \<and> adds_nonempty (calls w')"
    using i by blast
next
  assume "writes_by_id sv \<and> no_empty_embedding (store w)"
  then have wr: "writes_by_id sv" and a: "no_empty_embedding (store w)" by simp_all
  obtain r w' where i: "ingest sv url w = Some (r, w')" using ingest_returns by blast
  have "no_empty_embedding (store w')"
  proof (cases "fst (scrapeWebPage sv url w)")
    case (Inl e')
    then have "w' = log_call (Fetch url) w"
      using i scrapeWebPage_snd [of sv url w]
      by (cases "scrapeWebPage sv url w") (simp add: ingest_def)
    then show ?thesis using a by (simp add: store_log_call)
  next
    case (Inr p)
    obtain h b where p: "p = (h, b)" by (cases p)
    have s: "scrapeWebPage sv url w = (Inr (h, b), log_call (Fetch url) w)"
      using Inr p scrapeWebPage_snd [of sv url w] by (cases "scrapeWebPage sv url w") simp
    obtain cs where c: "chunkText b 500 = Some cs" by (simp add: chunkText_closed)
    have a1: "no_empty_embedding (store (log_call (Fetch url) w))"
      using a by (simp add: store_log_call)
    have "w' = snd (ingest_loop sv url h cs 0 (log_call (Fetch url) w))"
      using i s c by (simp add: ingest_def split: prod.splits sum.splits)
    then show ?thesis using ingest_loop_store [OF wr a1] by simp
  qed
  then show "\<exists>r w'. ingest sv url w = Some (r, w') \<and> no_empty_embedding (store w')"
    using i by blast
qed

text \<open>C4 at the example services with the embedding service down.\<close>

theorem empty_embedding_never_stored_witness:
  "insertIntoDB (embedding_down test_services) (js ''u-chunk-0'') (Some []) (js ''u'') (js ''b'')
     (js ''h'') empty_world = (Inr (), empty_world)
   \<and> embedContent (embedding_down test_services) (js ''b'')
       = Inl (ServiceError ''embedding service down'')
   \<and> ingest_chunk (embedding_down test_services) (js ''u'') (js ''h'') (js ''b'') 0 empty_world
       = (Inr (), log_call (Embed (js ''b'')) empty_world)
   \<and> adds_nonempty (calls empty_world)
   \<and> writes_by_id (embedding_down test_services)
   \<and> no_empty_embedding (store empty_world)
   \<and> (\<exists>r w'. ingest (embedding_down test_services) (js ''u'') empty_world = Some (r, w')
         \<and> adds_nonempty (calls w'))
   \<and> (\<exists>r w'. ingest (embedding_down test_services) (js ''u'') empty_world = Some (r, w')
         \<and> no_empty_embedding (store w'))"
proof -
  let ?sv = "embedding_down test_services"
  have 1: "embedContent ?sv (js ''b'') = Inl (ServiceError ''embedding service down'')"
    by (simp add: embedding_down_def)
  have 2: "adds_nonempty (calls empty_world)" by (simp add: adds_nonempty_def empty_world_def)
  have 3: "writes_by_id ?sv"
    by (simp add: writes_by_id_def embedding_down_def test_services_def)
  have 4: "no_empty_embedding (store empty_world)"
    by (simp add: no_empty_embedding_def empty_world_def)
  note t = empty_embedding_never_stored [where embedding = "Some []" and sv = ?sv
      and k = "js ''u-chunk-0''" and url = "js ''u''" and body = "js ''b''" and head = "js ''h''"
      and w = empty_world and chunk = "js ''b''" and e = "ServiceError ''embedding service down''"
      and i = 0]
  from t 1 2 3 4 show ?thesis by blast
qed

text \<open>
  Claim C7 on \<^verbatim>\<open>src/index.js\<close>. The source URLs are deduplicated in first-seen order
  (\<open>urls_first_seen\<close>), but the bodies are filtered with \<^verbatim>\<open>filter(Boolean)\<close>, which has
  lost the test of \<^verbatim>\<open>src/unnamed/part_001\<close> for blank bodies: for a retrieved record
  whose body is one space, a body that trims to the empty string, \<open>bodies\<close> keeps the
  body where \<open>bodies_part_001\<close> drops it.
\<close>

theorem bodies_keeps_blank_body:
  "trim (js '' '') = []
   \<and> bodies [\<lparr>meta_url = js ''u'', meta_head = js ''h'', meta_body = js '' ''\<rparr>] = [js '' '']
   \<and> bodies_part_001 [\<lparr>meta_url = js ''u'', meta_head = js ''h'', meta_body = js '' ''\<rparr>]
       = []"
  by (simp add: bodies_def bodies_part_001_def Boolean_string_def trim_def js_def isWs_def)

text \<open>
  Claim C6, as amended. When the embedding call of a question fails or yields an empty
  vector, \<open>generateVectorEmbeddings\<close> gives the empty vector and \<open>chat\<close> goes on: with
  the store reachable it queries the store with the empty vector for 3 records, and its
  result is the one this query leads to (the error of the query, the no-context
  outcome, or the answer or the error of the model on the records found). Only an
  unreachable store stops it before the query.
\<close>

theorem chat_embedding_failure:
  assumes "embedContent sv question = Inl e \<or> embedContent sv question = Inr (Some [])"
  shows "fst (generateVectorEmbeddings sv question w) = Some []
    \<and> (collection_error sv = None \<longrightarrow>
         (\<exists>rest. calls (snd (chat sv question w))
                  = calls w @ [Embed question, GetCollection, Query (Some []) 3] @ rest)
         \<and> fst (chat sv question w)
           = (case collection_query sv (store w) (Some []) 3 of
                Inl err \<Rightarrow> Inl err
              | Inr None \<Rightarrow> Inr NoRelevantContext
              | Inr (Some ms) \<Rightarrow>
                  if ms = [] then Inr NoRelevantContext
                  else (case generateContent sv (prompt question (urls ms) (bodies ms)) of
                          Inl err \<Rightarrow> Inl err
                        | Inr t \<Rightarrow> Inr (Answered t))))
    \<and> (\<forall>err. collection_error sv = Some err \<longrightarrow> fst (chat sv question w) = Inl err)"
proof -
  have qe: "fst (generateVectorEmbeddings sv question w) = Some []"
    using assms by (auto simp: generateVectorEmbeddings_fst)
  have a: "\<exists>rest. calls (snd (chat sv question w))
                  = calls w @ [Embed question, GetCollection, Query (Some []) 3] @ rest"
    if "collection_error sv = None"
    using that
    by (simp add: chat_unfold qe Let_def calls_log_call split: sum.split option.split)
  have b: "fst (chat sv question w)
           = (case collection_query sv (store w) (Some []) 3 of
                Inl err \<Rightarrow> Inl err
              | Inr None \<Rightarrow> Inr NoRelevantContext
              | Inr (Some ms) \<Rightarrow>
                  if ms = [] then Inr NoRelevantContext
                  else (case generateContent sv (prompt question (urls ms) (bodies ms)) of
                          Inl err \<Rightarrow> Inl err
                        | Inr t \<Rightarrow> Inr (Answered t)))"
    if "collection_error sv = None"
    using that by (simp add: chat_unfold qe Let_def split: sum.split option.split)
  have c: "fst (chat sv question w) = Inl err" if "collection_error sv = Some err" for err
    using that by (simp add: chat_unfold Let_def)
  from qe a b c show ?thesis by blast
qed

text \<open>
  C6 at the example services with the embedding service down and a store that finds one
  record.
\<close>

theorem chat_embedding_failure_witness:
  "embedContent (embedding_down (store_finds
       [\<lparr>meta_url = js ''u'', meta_head = js ''h'', meta_body = js ''b''\<rparr>] test_services))
     (js ''q'') = Inl (ServiceError ''embedding service down'')
   \<and> collection_error (embedding_down (store_finds
       [\<lparr>meta_url = js ''u'', meta_head = js ''h'', meta_body = js ''b''\<rparr>] test_services)) = None
   \<and> fst (generateVectorEmbeddings (embedding_down (store_finds
       [\<lparr>meta_url = js ''u'', meta_head = js ''h'', meta_body = js ''b''\<rparr>] test_services))
       (js ''q'') empty_world) = Some []
   \<and> (\<exists>rest. calls (snd (chat (embedding_down (store_finds
       [\<lparr>meta_url = js ''u'', meta_head = js ''h'', meta_body = js ''b''\<rparr>] test_services))
       (js ''q'') empty_world))
       = calls empty_world @ [Embed (js ''q''), GetCollection, Query (Some []) 3] @ rest)"
proof -
  let ?sv = "embedding_down (store_finds
       [\<lparr>meta_url = js ''u'', meta_head = js ''h'', meta_body = js ''b''\<rparr>] test_services)"
  have 1: "embedContent ?sv (js ''q'') = Inl (ServiceError ''embedding service down'')"
    by (simp add: embedding_down_def)
  have 2: "collection_error ?sv = None"
    by (simp add: embedding_down_def store_finds_def test_services_def)
  from chat_embedding_failure [OF disjI1 [OF 1], of empty_world] 1 2 show ?thesis by blast
qed

text \<open>
  Claim C6 as it is stated fails: with the embedding service down and a store that
  finds a record, \<open>chat\<close> neither fails nor stops. It queries the store once, calls
  the model once and returns the model's answer.
\<close>

theorem chat_embedding_failure_counterexample:
  "embedContent (embedding_down (store_finds
       [\<lparr>meta_url = js ''u'', meta_head = js ''h'', meta_body = js ''b''\<rparr>] test_services))
     (js ''q'') = Inl (ServiceError ''embedding service down'')
   \<and> fst (chat (embedding_down (store_finds
       [\<lparr>meta_url = js ''u'', meta_head = js ''h'', meta_body = js ''b''\<rparr>] test_services))
       (js ''q'') empty_world) = Inr (Answered (js ''answer''))
   \<and> query_calls (calls (snd (chat (embedding_down (store_finds
       [\<lparr>meta_url = js ''u'', meta_head = js ''h'', meta_body = js ''b''\<rparr>] test_services))
       (js ''q'') empty_world))) = 1
   \<and> generate_calls (calls (snd (chat (embedding_down (store_finds
       [\<lparr>meta_url = js ''u'', meta_head = js ''h'', meta_body = js ''b''\<rparr>] test_services))
       (js ''q'') empty_world))) = 1"
  by (simp add: chat_unfold generateVectorEmbeddings_fst embedding_down_def store_finds_def
      test_services_def empty_world_def Let_def calls_log_call query_calls_def
      generate_calls_def js_def)

text \<open>
  Claim C8, as amended. \<open>ingest\<close> always returns with a report and never throws, so a
  failure cannot reach the ingestion of another URL. A failed fetch is reported as a
  failure, with nothing written. When the fetch succeeds, the report is the failure
  exactly when the store rejects a call made in the run, and the success otherwise,
  after the embedding of every chunk has been requested; so failures of the embedding
  service alone, which only skip chunks, give the success whatever the store would do.
\<close>

theorem ingest_report:
  "(\<exists>r w'. ingest sv url w = Some (r, w'))
   \<and> (\<forall>e. fst (scrapeWebPage sv url w) = Inl e \<longrightarrow>
         ingest sv url w = Some (FailedToIngest, log_call (Fetch url) w)
         \<and> store (log_call (Fetch url) w) = store w)
   \<and> (\<forall>head body chunks.
         fst (scrapeWebPage sv url w) = Inr (head, body) \<and> chunkText body 500 = Some chunks \<longrightarrow>
           (map_option fst (ingest sv url w) = Some FailedToIngest
              \<longleftrightarrow> (\<exists>i. rejected_in_run sv url head chunks (log_call (Fetch url) w) i))
         \<and> (map_option fst (ingest sv url w) = Some Ingested
              \<longleftrightarrow> \<not> (\<exists>i. rejected_in_run sv url head chunks (log_call (Fetch url) w) i))
         \<and> (\<forall>w'. ingest sv url w = Some (Ingested, w') \<longrightarrow>
                embed_calls (calls w') = embed_calls (calls w) @ chunks)
         \<and> ((\<forall>t. fst (generateVectorEmbeddings sv t w) = None
                  \<or> fst (generateVectorEmbeddings sv t w) = Some []) \<longrightarrow>
                map_option fst (ingest sv url w) = Some Ingested))"
proof (intro conjI allI impI)
  show "\<exists>r w'. ingest sv url w = Some (r, w')" by (rule ingest_returns)
next
  fix e assume "fst (scrapeWebPage sv url w) = Inl e"
  then show "ingest sv url w = Some (FailedToIngest, log_call (Fetch url) w)"
    by (simp add: ingest_unfold)
next
  show "store (log_call (Fetch url) w) = store w" by (rule store_log_call)
next
  fix head body chunks
  assume a: "fst (scrapeWebPage sv url w) = Inr (head, body) \<and> chunkText body 500 = Some chunks"
  let ?w1 = "log_call (Fetch url) w"
  let ?res = "ingest_loop sv url head chunks 0 ?w1"
  have i: "ingest sv url w
           = Some (case fst ?res of Inl e \<Rightarrow> FailedToIngest | Inr u \<Rightarrow> Ingested, snd ?res)"
    using a by (simp add: ingest_report_fst)
  have rej: "(\<exists>e. fst ?res = Inl e) \<longleftrightarrow> (\<exists>i. rejected_in_run sv url head chunks ?w1 i)"
    using ingest_loop_rejected [of sv url head chunks 0 ?w1]
    by (auto simp: rejected_in_run_def)
  show f: "map_option fst (ingest sv url w) = Some FailedToIngest
        \<longleftrightarrow> (\<exists>i. rejected_in_run sv url head chunks ?w1 i)"
    unfolding rej [symmetric] i by (cases "fst ?res") simp_all
  show s: "map_option fst (ingest sv url w) = Some Ingested
        \<longleftrightarrow> \<not> (\<exists>i. rejected_in_run sv url head chunks ?w1 i)"
    unfolding rej [symmetric] i by (cases "fst ?res") simp_all
  show "embed_calls (calls w') = embed_calls (calls w) @ chunks"
    if "ingest sv url w = Some (Ingested, w')" for w'
  proof -
    have "fst ?res = Inr ()" "w' = snd ?res"
      using that i by (cases "fst ?res"; simp)+
    then show ?thesis
      using ingest_loop_embed_calls [of sv url head chunks 0 ?w1]
      by (simp add: calls_log_call embed_calls_append embed_calls_def)
  qed
  show "map_option fst (ingest sv url w) = Some Ingested"
    if e: "\<forall>t. fst (generateVectorEmbeddings sv t w) = None
            \<or> fst (generateVectorEmbeddings sv t w) = Some []"
  proof -
    have "\<not> call_rejected sv url head c j w2" for c j w2
    proof
      assume "call_rejected sv url head c j w2"
      then obtain v where v: "fst (generateVectorEmbeddings sv c w2) = Some v" "v \<noteq> []"
        by (auto simp: call_rejected_def)
      have "fst (generateVectorEmbeddings sv c w) = Some v"
        using v(1) embedding_world [of sv c w w2] by simp
      moreover have "fst (generateVectorEmbeddings sv c w) = None
          \<or> fst (generateVectorEmbeddings sv c w) = Some []" using e by blast
      ultimately show False using v(2) by auto
    qed
    then have "\<not> (\<exists>i. rejected_in_run sv url head chunks ?w1 i)"
      by (simp add: rejected_in_run_def)
    then show ?thesis using s by blast
  qed
qed

text \<open>
  C8 at the example services: a fetch that times out is reported as a failure; with
  the embedding service down and the store unreachable no call reaches the store and
  the report is the success; a store that rejects the write of the one chunk makes the
  report a failure.
\<close>

theorem ingest_report_witness:
  "fst (scrapeWebPage (test_services\<lparr>puppeteer_page := \<lambda>u. Inl (ServiceError ''timeout'')\<rparr>)
         (js ''u'') empty_world) = Inl (ServiceError ''timeout'')
   \<and> ingest (test_services\<lparr>puppeteer_page := \<lambda>u. Inl (ServiceError ''timeout'')\<rparr>)
         (js ''u'') empty_world = Some (FailedToIngest, log_call (Fetch (js ''u'')) empty_world)
   \<and> fst (scrapeWebPage (embedding_down (store_unreachable test_services)) (js ''u'')
           empty_world) = Inr (js ''Title'', page_text)
   \<and> chunkText page_text 500 = Some [page_text]
   \<and> (\<forall>t. fst (generateVectorEmbeddings (embedding_down (store_unreachable test_services)) t
                empty_world) = None
          \<or> fst (generateVectorEmbeddings (embedding_down (store_unreachable test_services)) t
                empty_world) = Some [])
   \<and> collection_error (embedding_down (store_unreachable test_services))
       = Some (ServiceError ''store unreachable'')
   \<and> map_option fst (ingest (embedding_down (store_unreachable test_services)) (js ''u'')
         empty_world) = Some Ingested
   \<and> fst (scrapeWebPage (store_rejects test_services) (js ''u'') empty_world)
       = Inr (js ''Title'', page_text)
   \<and> map_option fst (ingest (store_rejects test_services) (js ''u'') empty_world)
       = Some FailedToIngest
   \<and> (\<exists>i. rejected_in_run (store_rejects test_services) (js ''u'') (js ''Title'') [page_text]
           (log_call (Fetch (js ''u'')) empty_world) i)"
proof -
  let ?down = "test_services\<lparr>puppeteer_page := \<lambda>u. Inl (ServiceError ''timeout'')\<rparr>"
  let ?emb = "embedding_down (store_unreachable test_services)"
  let ?rej = "store_rejects test_services"
  have 1: "fst (scrapeWebPage ?down (js ''u'') empty_world) = Inl (ServiceError ''timeout'')"
    by (simp add: scrapeWebPage_def)
  have 2: "fst (scrapeWebPage ?emb (js ''u'') empty_world) = Inr (js ''Title'', page_text)"
    by (simp add: scrape_test_page embedding_down_def store_unreachable_def test_services_def)
  have 3: "chunkText page_text 500 = Some [page_text]" by (rule chunkText_page_text)
  have 4: "\<forall>t. fst (generateVectorEmbeddings ?emb t empty_world) = None
          \<or> fst (generateVectorEmbeddings ?emb t empty_world) = Some []"
    by (simp add: generateVectorEmbeddings_fst embedding_down_def)
  have 5: "collection_error ?emb = Some (ServiceError ''store unreachable'')"
    by (simp add: embedding_down_def store_unreachable_def)
  have 6: "fst (scrapeWebPage ?rej (js ''u'') empty_world) = Inr (js ''Title'', page_text)"
    by (rule ingest_store_rejects(1))
  have 7: "map_option fst (ingest ?rej (js ''u'') empty_world) = Some FailedToIngest"
    by (rule ingest_store_rejects(2))
  note a = ingest_report [of ?down "js ''u''" empty_world]
  note b = ingest_report [of ?emb "js ''u''" empty_world]
  note c = ingest_report [of ?rej "js ''u''" empty_world]
  from a 1 have 8: "ingest ?down (js ''u'') empty_world
      = Some (FailedToIngest, log_call (Fetch (js ''u'')) empty_world)" by blast
  from b 2 3 4 have 9: "map_option fst (ingest ?emb (js ''u'') empty_world) = Some Ingested"
    by blast
  from c 6 3 7 have 10: "\<exists>i. rejected_in_run ?rej (js ''u'') (js ''Title'') [page_text]
           (log_call (Fetch (js ''u'')) empty_world) i" by blast
  from 1 8 2 3 4 5 9 6 7 10 show ?thesis by blast
qed

text \<open>
  Claim C8 as it is stated fails: a rejected write also makes \<open>ingest\<close> report a
  failure. Here the fetch succeeds and the embedding succeeds, the store rejects the
  write of the one chunk, and the report is the failure.
\<close>

theorem ingest_store_failure_counterexample:
  "fst (scrapeWebPage (store_rejects test_services) (js ''u'') empty_world)
     = Inr (js ''Title'', page_text)
   \<and> map_option fst (ingest (store_rejects test_services) (js ''u'') empty_world)
     = Some FailedToIngest"
  using ingest_store_rejects by blast




end
